theory Spec2Isabelle
  imports
    Complex_Main
    "HOL-Library.AList"
    "HOL-Library.Char_ord"
    "HOL-Library.List_Lexorder"
    "HOL-Library.Product_Lexorder"
begin

section \<open>Protocol resolution of the DeFiLlama client\<close>

text \<open>
  This theory embeds \<^verbatim>\<open>DefiLlamaClient.resolve_protocol\<close> and
  \<^verbatim>\<open>DefiLlamaClient._build_parent_result\<close> of \<^verbatim>\<open>src/defillama.py\<close>, together with the
  parts of the Python standard library they call (\<^verbatim>\<open>str\<close> methods, \<^verbatim>\<open>dict\<close>, \<^verbatim>\<open>set\<close>,
  \<^verbatim>\<open>collections.Counter\<close>, \<^verbatim>\<open>heapq.nlargest\<close> and \<^verbatim>\<open>difflib\<close>).

  Modelling decisions:
  \<^item> A Python string is a \<open>string\<close>; a character is a code point below 256 (Latin-1), and
    strings with other code points are outside the model. \<^verbatim>\<open>str.lower\<close>, \<^verbatim>\<open>str.isspace\<close> and
    \<^verbatim>\<open>str.strip\<close> map such strings to such strings and are modelled on all 256 code points.
    \<^verbatim>\<open>str.title\<close> does not: the title-case forms of \<^verbatim>\<open>0xb5\<close>, \<^verbatim>\<open>0xdf\<close> and \<^verbatim>\<open>0xff\<close> are
    \<^verbatim>\<open>U+039C\<close>, the two characters \<^verbatim>\<open>Ss\<close> and \<^verbatim>\<open>U+0178\<close>. The model of \<^verbatim>\<open>str.title\<close> is
    that of Python on the strings without these three characters, and what is proved of a
    title-cased string assumes that it has none of them.
  \<^item> A protocol of the snapshot is a JSON object of which four keys are read. Each key is a
    \<open>string option\<close>, \<open>None\<close> when the key is missing. Values that are not strings are outside
    the model.
  \<^item> A \<^verbatim>\<open>dict\<close> is an association list in insertion order with distinct keys; assigning to a
    key that is present replaces the value in place, as Python does.
  \<^item> A \<^verbatim>\<open>set\<close> of strings is iterated by Python in an order that depends on the hashes of
    its elements. The model keeps the elements in insertion order and iterates them by
    increasing rank under an arbitrary function \<open>h\<close>, a parameter of the resolver; every
    iteration order arises from some \<open>h\<close>.
  \<^item> An exception is a value of type \<open>error\<close>, the left summand of the result.
  \<^item> The similarity scores of \<^verbatim>\<open>difflib\<close> are the floats \<^verbatim>\<open>2.0 * M / T\<close>. The model computes
    them as rationals. For strings shorter than \<open>2^25\<close> characters two such floats compare as
    the rationals do, also against the literals \<^verbatim>\<open>0.85\<close> and \<^verbatim>\<open>0.4\<close>, because distinct values
    of \<open>2 * M / T\<close> are further apart than the rounding error.
\<close>

subsection \<open>Strings\<close>

text \<open>The upper-case letters that \<^verbatim>\<open>str.lower\<close> changes, and in the same order the
  lower-case letters it maps them to: the 26 letters of ASCII and the 30 letters
  \<^verbatim>\<open>0xc0\<close> to \<^verbatim>\<open>0xde\<close> of Latin-1 (\<^verbatim>\<open>0xd7\<close>, the multiplication sign, is no letter), each
  \<^verbatim>\<open>0x20\<close> below its lower-case form (\<^verbatim>\<open>0xf7\<close> is the division sign).\<close>

definition upper_letters :: string where
  "upper_letters = ''ABCDEFGHIJKLMNOPQRSTUVWXYZ'' @
     [CHR 0xC0, CHR 0xC1, CHR 0xC2, CHR 0xC3, CHR 0xC4, CHR 0xC5, CHR 0xC6,
       CHR 0xC7, CHR 0xC8, CHR 0xC9, CHR 0xCA, CHR 0xCB, CHR 0xCC, CHR 0xCD,
       CHR 0xCE, CHR 0xCF, CHR 0xD0, CHR 0xD1, CHR 0xD2, CHR 0xD3, CHR 0xD4,
       CHR 0xD5, CHR 0xD6, CHR 0xD8, CHR 0xD9, CHR 0xDA, CHR 0xDB, CHR 0xDC,
       CHR 0xDD, CHR 0xDE]"

definition lower_letters :: string where
  "lower_letters = ''abcdefghijklmnopqrstuvwxyz'' @
     [CHR 0xE0, CHR 0xE1, CHR 0xE2, CHR 0xE3, CHR 0xE4, CHR 0xE5, CHR 0xE6,
       CHR 0xE7, CHR 0xE8, CHR 0xE9, CHR 0xEA, CHR 0xEB, CHR 0xEC, CHR 0xED,
       CHR 0xEE, CHR 0xEF, CHR 0xF0, CHR 0xF1, CHR 0xF2, CHR 0xF3, CHR 0xF4,
       CHR 0xF5, CHR 0xF6, CHR 0xF8, CHR 0xF9, CHR 0xFA, CHR 0xFB, CHR 0xFC,
       CHR 0xFD, CHR 0xFE]"

text \<open>The cased characters that have no other case among the code points below 256: the
  ordinal indicators \<^verbatim>\<open>0xaa\<close> and \<^verbatim>\<open>0xba\<close>, which have no case mapping, and the lower-case
  letters \<^verbatim>\<open>0xb5\<close> (micro sign), \<^verbatim>\<open>0xdf\<close> (sharp s) and \<^verbatim>\<open>0xff\<close> (y with diaeresis), which
  \<^verbatim>\<open>str.lower\<close> leaves unchanged and whose title-case forms are outside the model.\<close>

definition other_cased :: string where
  "other_cased = [CHR 0xAA, CHR 0xB5, CHR 0xBA, CHR 0xDF, CHR 0xFF]"


text \<open>\<^verbatim>\<open>str.lower\<close> on one character, and the title-case form of one character, which
  \<^verbatim>\<open>str.title\<close> gives to a character that does not follow a cased one. For a character that
  is not in \<open>title_escapes\<close> the title-case form is the upper-case form; the three
  characters of \<open>title_escapes\<close> are left as they are, which is not what Python does with
  them.\<close>

definition lower_char :: "char \<Rightarrow> char" where
  "lower_char c = (case map_of (zip upper_letters lower_letters) c of Some d \<Rightarrow> d | None \<Rightarrow> c)"

definition upper_char :: "char \<Rightarrow> char" where
  "upper_char c = (case map_of (zip lower_letters upper_letters) c of Some d \<Rightarrow> d | None \<Rightarrow> c)"

definition lower :: "string \<Rightarrow> string" where
  "lower s = map lower_char s"

text \<open>\<^verbatim>\<open>str.isspace\<close> on one character: tab, line feed, vertical tab, form feed, carriage
  return, the four separators \<^verbatim>\<open>0x1c\<close> to \<^verbatim>\<open>0x1f\<close>, the space, the next-line control
  \<^verbatim>\<open>0x85\<close> and the no-break space \<^verbatim>\<open>0xa0\<close>.\<close>

definition isspace :: "char \<Rightarrow> bool" where
  "isspace c \<longleftrightarrow> c \<in> set [CHR 0x09, CHR 0x0A, CHR 0x0B, CHR 0x0C, CHR 0x0D,
                          CHR 0x1C, CHR 0x1D, CHR 0x1E, CHR 0x1F, CHR 0x20, CHR 0x85, CHR 0xA0]"

text \<open>\<^verbatim>\<open>s.strip()\<close>: leading and trailing whitespace removed.\<close>

definition strip :: "string \<Rightarrow> string" where
  "strip s = rev (dropWhile isspace (rev (dropWhile isspace s)))"

text \<open>\<^verbatim>\<open>s.startswith(prefix)\<close>.\<close>

definition startswith :: "string \<Rightarrow> string \<Rightarrow> bool" where
  "startswith s prefix \<longleftrightarrow> take (length prefix) s = prefix"

text \<open>\<^verbatim>\<open>s.replace(old, new)\<close> for one-character \<^verbatim>\<open>old\<close> and \<^verbatim>\<open>new\<close>.\<close>

definition replace :: "string \<Rightarrow> char \<Rightarrow> char \<Rightarrow> string" where
  "replace s old new = map (\<lambda>c. if c = old then new else c) s"

text \<open>\<^verbatim>\<open>s.split(sep)[0]\<close> for a non-empty separator: the part of \<open>s\<close> before the first
  occurrence of \<open>sep\<close>, all of \<open>s\<close> when there is none.\<close>

fun split_first :: "string \<Rightarrow> string \<Rightarrow> string" where
  "split_first [] sep = []"
| "split_first (c # cs) sep =
     (if startswith (c # cs) sep then [] else c # split_first cs sep)"

text \<open>\<^verbatim>\<open>s.split(sep, 1)[1]\<close> for a non-empty separator that occurs in \<open>s\<close>: the part of \<open>s\<close>
  after the first occurrence of \<open>sep\<close>. The one call is guarded by
  \<^verbatim>\<open>startswith("parent#")\<close>, so the separator \<^verbatim>\<open>"#"\<close> occurs.\<close>

fun split_rest :: "string \<Rightarrow> string \<Rightarrow> string" where
  "split_rest [] sep = []"
| "split_rest (c # cs) sep =
     (if startswith (c # cs) sep then drop (length sep) (c # cs) else split_rest cs sep)"

text \<open>\<^verbatim>\<open>s.title()\<close>: a character that follows a cased character is lower-cased, any other
  character is given its title-case form; \<open>prev\<close> is CPython's \<^verbatim>\<open>previous_is_cased\<close>. The
  cased characters are the letters that have an upper or a lower case.\<close>

definition iscased :: "char \<Rightarrow> bool" where
  "iscased c \<longleftrightarrow> c \<in> set upper_letters \<or> c \<in> set lower_letters \<or> c \<in> set other_cased"

fun title_from :: "bool \<Rightarrow> string \<Rightarrow> string" where
  "title_from prev [] = []"
| "title_from prev (c # cs) =
     (if prev then lower_char c else upper_char c) # title_from (iscased c) cs"

definition title :: "string \<Rightarrow> string" where
  "title s = title_from False s"

text \<open>\<^verbatim>\<open>sep.join(xs)\<close>.\<close>

fun join :: "string \<Rightarrow> string list \<Rightarrow> string" where
  "join sep [] = []"
| "join sep [x] = x"
| "join sep (x # y # ys) = x @ sep @ join sep (y # ys)"

subsection \<open>Dictionaries and sets\<close>

text \<open>\<^verbatim>\<open>d[k] = v\<close> is \<^const>\<open>AList.update\<close>, \<^verbatim>\<open>d.get(k)\<close> is \<^const>\<open>map_of\<close>, and
  \<^verbatim>\<open>d.setdefault(k, []).append(v)\<close> is the following.\<close>

definition setdefault_append :: "'k \<Rightarrow> 'v \<Rightarrow> ('k \<times> 'v list) list \<Rightarrow> ('k \<times> 'v list) list" where
  "setdefault_append k v d =
     (case map_of d k of
        None \<Rightarrow> d @ [(k, [v])]
      | Some vs \<Rightarrow> AList.update k (vs @ [v]) d)"

text \<open>\<^verbatim>\<open>s.add(x)\<close> on the insertion-ordered elements of a set.\<close>

definition set_add :: "'a \<Rightarrow> 'a list \<Rightarrow> 'a list" where
  "set_add x s = (if x \<in> set s then s else s @ [x])"

text \<open>\<^verbatim>\<open>for x in s\<close> over a set: by increasing rank, insertion order among equal ranks.\<close>

definition set_iter :: "('a \<Rightarrow> nat) \<Rightarrow> 'a list \<Rightarrow> 'a list" where
  "set_iter h s = sort_key h s"

text \<open>The rank under which a set is iterated in insertion order.\<close>

definition insertion_rank :: "string \<Rightarrow> nat" where
  "insertion_rank s = 0"

subsection \<open>The registry snapshot and its indices\<close>

record protocol =
  slug :: "string option"
  name :: "string option"
  category :: "string option"
  parentProtocol :: "string option"

text \<open>\<^verbatim>\<open>p.get(key, "")\<close>.\<close>

definition get_str :: "string option \<Rightarrow> string" where
  "get_str v = (case v of None \<Rightarrow> [] | Some s \<Rightarrow> s)"

record indices =
  slug_map :: "(string \<times> protocol) list"
  name_map :: "(string \<times> protocol) list"
  parent_slugs :: "string list"
  parent_children :: "(string \<times> protocol list) list"

definition empty_indices :: indices where
  "empty_indices = \<lparr>slug_map = [], name_map = [], parent_slugs = [], parent_children = []\<rparr>"

text \<open>The body of the loop \<^verbatim>\<open>for p in protocols\<close> (lines 78 to 88).\<close>

definition index_protocol :: "indices \<Rightarrow> protocol \<Rightarrow> indices" where
  "index_protocol ix p =
     (let ix1 = ix\<lparr>slug_map := AList.update (lower (get_str (slug p))) p (slug_map ix),
                   name_map := AList.update (lower (get_str (name p))) p (name_map ix)\<rparr>;
          parent_ref = get_str (parentProtocol p)
      in if parent_ref \<noteq> [] \<and> startswith parent_ref ''parent#''
         then (let ps = split_rest parent_ref ''#''
               in ix1\<lparr>parent_slugs := set_add (lower ps) (parent_slugs ix1),
                       parent_children := setdefault_append (lower ps) p (parent_children ix1)\<rparr>)
         else ix1)"

definition build_indices :: "protocol list \<Rightarrow> indices" where
  "build_indices protocols = foldl index_protocol empty_indices protocols"

subsection \<open>The sequence matcher of difflib\<close>

text \<open>\<^verbatim>\<open>_calculate_ratio(matches, length)\<close>.\<close>

definition calculate_ratio :: "nat \<Rightarrow> nat \<Rightarrow> rat" where
  "calculate_ratio matches len = (if len \<noteq> 0 then 2 * of_nat matches / of_nat len else 1)"

text \<open>\<^verbatim>\<open>SequenceMatcher.__chain_b\<close> with \<^verbatim>\<open>isjunk=None\<close> and \<^verbatim>\<open>autojunk=True\<close>, as
  \<^verbatim>\<open>get_close_matches\<close> constructs the matcher: \<open>b2j\<close> maps each element of \<open>b\<close> to the
  ascending list of its positions, and loses the popular elements when \<open>b\<close> has 200 elements
  or more.\<close>

definition chain_b :: "string \<Rightarrow> (char \<times> nat list) list" where
  "chain_b b =
     (let b2j = foldl (\<lambda>d (i, elt). setdefault_append elt i d) [] (enumerate 0 b);
          n = length b
      in if n \<ge> 200
         then (let ntest = n div 100 + 1
               in filter (\<lambda>(elt, idxs). \<not> length idxs > ntest) b2j)
         else b2j)"

text \<open>\<^verbatim>\<open>find_longest_match\<close>, the inner loop \<^verbatim>\<open>for j in b2j.get(a[i], nothing)\<close>. The state is
  \<^verbatim>\<open>(newj2len, besti, bestj, bestsize)\<close>. Python's \<^verbatim>\<open>j2len.get(j-1, 0)\<close> at \<open>j = 0\<close> looks up
  the key \<open>-1\<close>, which is never present. A run of length \<open>k\<close> ending at \<open>i\<close> and \<open>j\<close> starts at
  \<open>i - k + 1\<close> and \<open>j - k + 1\<close>, which are not negative.\<close>

fun match_row ::
  "nat \<Rightarrow> nat \<Rightarrow> nat \<Rightarrow> (nat \<times> nat) list \<Rightarrow> nat list \<Rightarrow>
   (nat \<times> nat) list \<times> nat \<times> nat \<times> nat \<Rightarrow> (nat \<times> nat) list \<times> nat \<times> nat \<times> nat" where
  "match_row blo bhi i j2len [] st = st"
| "match_row blo bhi i j2len (j # js) (newj2len, besti, bestj, bestsize) =
     (if j < blo then match_row blo bhi i j2len js (newj2len, besti, bestj, bestsize)
      else if j \<ge> bhi then (newj2len, besti, bestj, bestsize)
      else (let k = (if j = 0 then 0
                     else (case map_of j2len (j - 1) of None \<Rightarrow> 0 | Some v \<Rightarrow> v)) + 1;
                newj2len' = AList.update j k newj2len
            in if k > bestsize
               then match_row blo bhi i j2len js (newj2len', i + 1 - k, j + 1 - k, k)
               else match_row blo bhi i j2len js (newj2len', besti, bestj, bestsize)))"

text \<open>The outer loop \<^verbatim>\<open>for i in range(alo, ahi)\<close>; the state is
  \<^verbatim>\<open>(j2len, besti, bestj, bestsize)\<close>.\<close>

definition match_step ::
  "string \<Rightarrow> (char \<times> nat list) list \<Rightarrow> nat \<Rightarrow> nat \<Rightarrow>
   (nat \<times> nat) list \<times> nat \<times> nat \<times> nat \<Rightarrow> nat \<Rightarrow> (nat \<times> nat) list \<times> nat \<times> nat \<times> nat" where
  "match_step a b2j blo bhi st i =
     (case st of (j2len, best) \<Rightarrow>
        match_row blo bhi i j2len
          (case map_of b2j (a ! i) of None \<Rightarrow> [] | Some js \<Rightarrow> js) ([], best))"

definition match_rows ::
  "string \<Rightarrow> (char \<times> nat list) list \<Rightarrow> nat \<Rightarrow> nat \<Rightarrow> nat \<Rightarrow> nat \<Rightarrow>
   (nat \<times> nat) list \<times> nat \<times> nat \<times> nat" where
  "match_rows a b2j alo ahi blo bhi =
     foldl (match_step a b2j blo bhi) ([], alo, blo, 0) [alo..<ahi]"

text \<open>The two loops that extend the block on both sides. No element is junk
  (\<^verbatim>\<open>bjunk\<close> is empty without \<^verbatim>\<open>isjunk\<close>), so \<^verbatim>\<open>not isbjunk(...)\<close> holds and the two
  further loops of the source, which extend over junk, do not iterate.\<close>

function extend_left :: "string \<Rightarrow> string \<Rightarrow> nat \<Rightarrow> nat \<Rightarrow> nat \<times> nat \<times> nat \<Rightarrow> nat \<times> nat \<times> nat" where
  "extend_left a b alo blo (besti, bestj, bestsize) =
     (if besti > alo \<and> bestj > blo \<and> a ! (besti - 1) = b ! (bestj - 1)
      then extend_left a b alo blo (besti - 1, bestj - 1, bestsize + 1)
      else (besti, bestj, bestsize))"
  by pat_completeness auto
termination
  by (relation "measure (\<lambda>(a, b, alo, blo, besti, bestj, bestsize). besti)") auto

declare extend_left.simps [simp del]

function extend_right :: "string \<Rightarrow> string \<Rightarrow> nat \<Rightarrow> nat \<Rightarrow> nat \<times> nat \<times> nat \<Rightarrow> nat \<times> nat \<times> nat" where
  "extend_right a b ahi bhi (besti, bestj, bestsize) =
     (if besti + bestsize < ahi \<and> bestj + bestsize < bhi \<and>
         a ! (besti + bestsize) = b ! (bestj + bestsize)
      then extend_right a b ahi bhi (besti, bestj, bestsize + 1)
      else (besti, bestj, bestsize))"
  by pat_completeness auto
termination
  by (relation "measure (\<lambda>(a, b, ahi, bhi, besti, bestj, bestsize). ahi - (besti + bestsize))") auto

declare extend_right.simps [simp del]

definition find_longest_match ::
  "string \<Rightarrow> string \<Rightarrow> (char \<times> nat list) list \<Rightarrow> nat \<Rightarrow> nat \<Rightarrow> nat \<Rightarrow> nat \<Rightarrow> nat \<times> nat \<times> nat" where
  "find_longest_match a b b2j alo ahi blo bhi =
     (case match_rows a b2j alo ahi blo bhi of
        (j2len, best) \<Rightarrow> extend_right a b ahi bhi (extend_left a b alo blo best))"

text \<open>What the termination of \<^verbatim>\<open>get_matching_blocks\<close> needs of the block that
  \<^verbatim>\<open>find_longest_match\<close> returns: an empty block sits at \<open>alo\<close>, a non-empty one starts below
  \<open>ahi\<close> and ends above \<open>alo\<close>.\<close>

definition block_inv :: "nat \<Rightarrow> nat \<Rightarrow> nat \<times> nat \<times> nat \<Rightarrow> bool" where
  "block_inv alo ahi best =
     (case best of (besti, bestj, bestsize) \<Rightarrow>
        (bestsize = 0 \<and> besti = alo) \<or> (bestsize > 0 \<and> besti < ahi \<and> alo < besti + bestsize))"

lemma block_inv_new:
  "alo \<le> i \<Longrightarrow> i < ahi \<Longrightarrow> 0 < k \<Longrightarrow> bi \<le> i \<Longrightarrow> i < bi + k \<Longrightarrow> block_inv alo ahi (bi, bj, k)"
  by (auto simp: block_inv_def)

lemma match_row_inv:
  "alo \<le> i \<Longrightarrow> i < ahi \<Longrightarrow> block_inv alo ahi best \<Longrightarrow>
   block_inv alo ahi (snd (match_row blo bhi i j2len js (n, best)))"
proof (induction js arbitrary: n best)
  case Nil
  then show ?case by simp
next
  case (Cons j js)
  obtain besti bestj bestsize where best: "best = (besti, bestj, bestsize)"
    by (cases best) auto
  note IH = Cons.IH[OF Cons.prems(1,2)]
  note new = block_inv_new[OF Cons.prems(1,2)]
  show ?case
    using Cons.prems(3) unfolding best
    by (simp add: Let_def IH new del: AList.update.simps)
qed

lemma match_step_inv:
  "alo \<le> i \<Longrightarrow> i < ahi \<Longrightarrow> block_inv alo ahi (snd st) \<Longrightarrow>
   block_inv alo ahi (snd (match_step a b2j blo bhi st i))"
  by (cases st) (simp add: match_step_def match_row_inv)

lemma match_rows_inv_aux:
  "\<forall>i\<in>set is. alo \<le> i \<and> i < ahi \<Longrightarrow> block_inv alo ahi (snd st) \<Longrightarrow>
   block_inv alo ahi (snd (foldl (match_step a b2j blo bhi) st is))"
  by (induction "is" arbitrary: st) (simp_all add: match_step_inv)

lemma match_rows_inv: "block_inv alo ahi (snd (match_rows a b2j alo ahi blo bhi))"
  unfolding match_rows_def
  by (rule match_rows_inv_aux) (auto simp: block_inv_def)

lemma extend_left_inv:
  "block_inv alo ahi best \<Longrightarrow> block_inv alo ahi (extend_left a b alo blo best)"
proof (induction a b alo blo best rule: extend_left.induct)
  case (1 a b alo blo besti bestj bestsize)
  show ?case
  proof (cases "besti > alo \<and> bestj > blo \<and> a ! (besti - 1) = b ! (bestj - 1)")
    case True
    have "block_inv alo ahi (besti - 1, bestj - 1, bestsize + 1)"
      using True "1.prems" by (auto simp: block_inv_def)
    with "1.IH"[OF True] True show ?thesis by (subst extend_left.simps) simp
  next
    case False
    with "1.prems" show ?thesis by (subst extend_left.simps) auto
  qed
qed

lemma extend_right_inv:
  "block_inv alo ahi best \<Longrightarrow> block_inv alo ahi (extend_right a b ahi bhi best)"
proof (induction a b ahi bhi best rule: extend_right.induct)
  case (1 a b ahi bhi besti bestj bestsize)
  let ?c = "besti + bestsize < ahi \<and> bestj + bestsize < bhi \<and>
         a ! (besti + bestsize) = b ! (bestj + bestsize)"
  show ?case
  proof (cases ?c)
    case True
    have "block_inv alo ahi (besti, bestj, bestsize + 1)"
      using True "1.prems" by (auto simp: block_inv_def)
    with "1.IH"[OF True] True show ?thesis by (subst extend_right.simps) simp
  next
    case False
    with "1.prems" show ?thesis by (subst extend_right.simps) auto
  qed
qed

lemma find_longest_match_inv:
  "block_inv alo ahi (find_longest_match a b b2j alo ahi blo bhi)"
  unfolding find_longest_match_def
  using match_rows_inv[of alo ahi a b2j blo bhi]
  by (auto split: prod.splits intro!: extend_right_inv extend_left_inv)


lemma find_longest_match_bounds:
  assumes "(i, j, k) = find_longest_match a b b2j alo ahi blo bhi" and "0 < k"
  shows "i < ahi \<and> alo < i + k"
  using find_longest_match_inv[of alo ahi a b b2j blo bhi] assms
  by (auto simp: block_inv_def)

text \<open>\<^verbatim>\<open>get_matching_blocks\<close>, the loop \<^verbatim>\<open>while queue\<close>. The queue is a stack, its top the
  head of the list: the source appends the left part, then the right part, and pops the
  right part first.\<close>

function matching_blocks_loop ::
  "string \<Rightarrow> string \<Rightarrow> (char \<times> nat list) list \<Rightarrow> (nat \<times> nat \<times> nat \<times> nat) list \<Rightarrow>
   (nat \<times> nat \<times> nat) list \<Rightarrow> (nat \<times> nat \<times> nat) list" where
  "matching_blocks_loop a b b2j [] matching_blocks = matching_blocks"
| "matching_blocks_loop a b b2j ((alo, ahi, blo, bhi) # queue) matching_blocks =
     (case find_longest_match a b b2j alo ahi blo bhi of
        (i, j, k) \<Rightarrow>
          if k \<noteq> 0
          then matching_blocks_loop a b b2j
                 ((if i + k < ahi \<and> j + k < bhi then [(i + k, ahi, j + k, bhi)] else []) @
                  (if alo < i \<and> blo < j then [(alo, i, blo, j)] else []) @ queue)
                 (matching_blocks @ [(i, j, k)])
          else matching_blocks_loop a b b2j queue matching_blocks)"
  by pat_completeness auto
termination
  by (relation "measure (\<lambda>(a, b, b2j, queue, matching_blocks).
                  sum_list (map (\<lambda>(alo, ahi, blo, bhi). 2 * (ahi - alo) + 1) queue))")
     (auto dest!: find_longest_match_bounds)

declare matching_blocks_loop.simps [simp del]

text \<open>The loop that merges adjacent blocks; \<open>(i1, j1, k1)\<close> is the pending block, which
  starts as \<open>(0, 0, 0)\<close> and is appended when it is not empty.\<close>

fun non_adjacent :: "nat \<times> nat \<times> nat \<Rightarrow> (nat \<times> nat \<times> nat) list \<Rightarrow> (nat \<times> nat \<times> nat) list" where
  "non_adjacent (i1, j1, k1) [] = (if k1 \<noteq> 0 then [(i1, j1, k1)] else [])"
| "non_adjacent (i1, j1, k1) ((i2, j2, k2) # rest) =
     (if i1 + k1 = i2 \<and> j1 + k1 = j2 then non_adjacent (i1, j1, k1 + k2) rest
      else (if k1 \<noteq> 0 then [(i1, j1, k1)] else []) @ non_adjacent (i2, j2, k2) rest)"

definition get_matching_blocks ::
  "string \<Rightarrow> string \<Rightarrow> (char \<times> nat list) list \<Rightarrow> (nat \<times> nat \<times> nat) list" where
  "get_matching_blocks a b b2j =
     (let la = length a; lb = length b;
          matching_blocks = sort (matching_blocks_loop a b b2j [(0, la, 0, lb)] [])
      in non_adjacent (0, 0, 0) matching_blocks @ [(la, lb, 0)])"

text \<open>The three scores of a matcher whose first sequence is \<open>a\<close> and whose second is \<open>b\<close>.\<close>

definition ratio :: "string \<Rightarrow> string \<Rightarrow> rat" where
  "ratio a b =
     calculate_ratio (sum_list (map (\<lambda>(i, j, k). k) (get_matching_blocks a b (chain_b b))))
       (length a + length b)"

text \<open>\<^verbatim>\<open>_count_elements\<close>, which fills a \<^verbatim>\<open>Counter\<close>; \<^verbatim>\<open>quick_ratio\<close> counts the elements of
  \<open>b\<close> into \<^verbatim>\<open>fullbcount\<close> by the same statement.\<close>

definition Counter :: "'a list \<Rightarrow> ('a \<times> nat) list" where
  "Counter xs =
     foldl (\<lambda>d elt. AList.update elt ((case map_of d elt of None \<Rightarrow> 0 | Some c \<Rightarrow> c) + 1) d) [] xs"

text \<open>The loop of \<^verbatim>\<open>quick_ratio\<close> over \<open>a\<close>; the state is \<^verbatim>\<open>(avail, matches)\<close>, and the counts
  in \<^verbatim>\<open>avail\<close> go below zero.\<close>

definition quick_step ::
  "(char \<times> nat) list \<Rightarrow> (char \<times> int) list \<times> nat \<Rightarrow> char \<Rightarrow> (char \<times> int) list \<times> nat" where
  "quick_step fullbcount st elt =
     (case st of (avail, matches) \<Rightarrow>
        (let numb = (case map_of avail elt of
                       Some v \<Rightarrow> v
                     | None \<Rightarrow> (case map_of fullbcount elt of None \<Rightarrow> 0 | Some c \<Rightarrow> int c))
         in (AList.update elt (numb - 1) avail, if numb > 0 then matches + 1 else matches)))"

definition quick_ratio :: "string \<Rightarrow> string \<Rightarrow> rat" where
  "quick_ratio a b =
     calculate_ratio (snd (foldl (quick_step (Counter b)) ([], 0) a)) (length a + length b)"

definition real_quick_ratio :: "string \<Rightarrow> string \<Rightarrow> rat" where
  "real_quick_ratio a b = calculate_ratio (min (length a) (length b)) (length a + length b)"

text \<open>\<^verbatim>\<open>heapq.nlargest(n, iterable)\<close> without a key, which the library documents as
  \<^verbatim>\<open>sorted(iterable, reverse=True)[:n]\<close>. The elements are compared as tuples, so two of them
  that compare equal are the same value and stability is not observable.\<close>

definition nlargest :: "nat \<Rightarrow> ('a::linorder) list \<Rightarrow> 'a list" where
  "nlargest n xs = take n (rev (sort xs))"

text \<open>\<^verbatim>\<open>difflib.get_close_matches(word, possibilities, n, cutoff)\<close>. Both calls of the source
  pass \<open>n > 0\<close> and a cutoff in \<open>[0, 1]\<close>, so the two argument checks do not raise.\<close>

definition close_enough :: "string \<Rightarrow> rat \<Rightarrow> string \<Rightarrow> bool" where
  "close_enough word cutoff x \<longleftrightarrow>
     real_quick_ratio x word \<ge> cutoff \<and> quick_ratio x word \<ge> cutoff \<and> ratio x word \<ge> cutoff"

definition get_close_matches :: "string \<Rightarrow> string list \<Rightarrow> nat \<Rightarrow> rat \<Rightarrow> string list" where
  "get_close_matches word possibilities n cutoff =
     (let result = map (\<lambda>x. (ratio x word, x)) (filter (close_enough word cutoff) possibilities)
      in map snd (nlargest n result))"

text \<open>\<^verbatim>\<open>Counter.most_common(1)\<close> is \<^verbatim>\<open>heapq.nlargest(1, items, key=itemgetter(1))\<close>, which is
  \<^verbatim>\<open>max\<close> with that key: the first item whose count no later item exceeds.\<close>

fun max_count :: "'a \<times> nat \<Rightarrow> ('a \<times> nat) list \<Rightarrow> 'a \<times> nat" where
  "max_count best [] = best"
| "max_count best (x # xs) = (if snd x > snd best then max_count x xs else max_count best xs)"

definition most_common_1 :: "('a \<times> nat) list \<Rightarrow> ('a \<times> nat) list" where
  "most_common_1 items = (case items of [] \<Rightarrow> [] | x # xs \<Rightarrow> [max_count x xs])"

subsection \<open>The resolver\<close>

datatype error = KeyError string | IndexError | ProtocolNotFoundError string

text \<open>The dict that \<^verbatim>\<open>resolve_protocol\<close> returns. An entry of \<open>children\<close> is the pair of a
  child's \<^verbatim>\<open>name\<close> and \<^verbatim>\<open>slug\<close>.\<close>

record resolution =
  res_slug :: string
  res_name :: string
  is_parent :: bool
  children :: "(string \<times> string) list"
  res_category :: "string option"

text \<open>The result built from one protocol \<open>p\<close>. The source writes this dict literal four
  times (lines 93, 104, 153 and 162); \<^verbatim>\<open>p["slug"]\<close> and \<^verbatim>\<open>p["name"]\<close> raise \<^verbatim>\<open>KeyError\<close> on a
  missing key, in this order, and \<^verbatim>\<open>p.get("category")\<close> does not.\<close>

definition record_result :: "protocol \<Rightarrow> error + resolution" where
  "record_result p =
     (case slug p of
        None \<Rightarrow> Inl (KeyError ''slug'')
      | Some s \<Rightarrow>
          (case name p of
             None \<Rightarrow> Inl (KeyError ''name'')
           | Some n \<Rightarrow>
               Inr \<lparr>res_slug = s, res_name = n, is_parent = False, children = [],
                    res_category = category p\<rparr>))"

text \<open>\<^verbatim>\<open>child_name.split(" V")[0].split(" v")[0].strip()\<close> of lines 124 and 197.\<close>

definition base_name :: "protocol \<Rightarrow> string" where
  "base_name child = strip (split_first (split_first (get_str (name child)) '' V'') '' v'')"

text \<open>The list comprehension of line 207.\<close>

fun child_entries :: "protocol list \<Rightarrow> error + (string \<times> string) list" where
  "child_entries [] = Inr []"
| "child_entries (c # cs) =
     (case name c of
        None \<Rightarrow> Inl (KeyError ''name'')
      | Some n \<Rightarrow>
          (case slug c of
             None \<Rightarrow> Inl (KeyError ''slug'')
           | Some s \<Rightarrow>
               (case child_entries cs of Inl e \<Rightarrow> Inl e | Inr es \<Rightarrow> Inr ((n, s) # es))))"

text \<open>The list comprehension of line 190: the categories that are present and not empty.\<close>

definition child_categories :: "protocol list \<Rightarrow> string list" where
  "child_categories cs =
     concat (map (\<lambda>c. case category c of None \<Rightarrow> [] | Some cat \<Rightarrow> if cat \<noteq> [] then [cat] else []) cs)"

text \<open>\<^verbatim>\<open>_build_parent_result(parent_slug, parent_children)\<close>; the second parameter is
  \<open>pchildren\<close> here.\<close>

definition build_parent_result ::
  "string \<Rightarrow> (string \<times> protocol list) list \<Rightarrow> error + resolution" where
  "build_parent_result parent_slug pchildren =
     (let children' = (case map_of pchildren parent_slug of None \<Rightarrow> [] | Some cs \<Rightarrow> cs);
          categories = child_categories children'
      in case (if categories \<noteq> []
               then (case most_common_1 (Counter categories) of
                       [] \<Rightarrow> Inl IndexError
                     | item # _ \<Rightarrow> Inr (Some (fst item)))
               else Inr None) of
           Inl e \<Rightarrow> Inl e
         | Inr category' \<Rightarrow>
             (let name' =
                (case find (\<lambda>child. lower (base_name child) =
                                     replace parent_slug (CHR ''-'') (CHR '' '')) children' of
                   Some child \<Rightarrow> base_name child
                 | None \<Rightarrow> title (replace parent_slug (CHR ''-'') (CHR '' '')))
              in case child_entries children' of
                   Inl e \<Rightarrow> Inl e
                 | Inr entries \<Rightarrow>
                     Inr \<lparr>res_slug = parent_slug, res_name = name', is_parent = True,
                          children = entries, res_category = category'\<rparr>))"

text \<open>The loops of lines 121 to 126, which build \<^verbatim>\<open>parent_name_map\<close>.\<close>

definition build_parent_name_map :: "(string \<times> protocol list) list \<Rightarrow> (string \<times> string) list" where
  "build_parent_name_map pchildren =
     foldl (\<lambda>m (ps, cs).
              foldl (\<lambda>m child. AList.update (lower (base_name child)) ps m) m cs)
       [] pchildren"

text \<open>The four loops of lines 131 to 139, which build \<^verbatim>\<open>all_candidates\<close>; the third iterates
  the set \<^verbatim>\<open>parent_slugs\<close>.\<close>

definition build_all_candidates ::
  "(string \<Rightarrow> nat) \<Rightarrow> indices \<Rightarrow> (string \<times> string) list \<Rightarrow> (string \<times> string \<times> string) list" where
  "build_all_candidates h ix parent_name_map =
     (let c1 = foldl (\<lambda>d k. AList.update k (''slug'', k) d) [] (map fst (slug_map ix));
          c2 = foldl (\<lambda>d k. AList.update k (''name'', k) d) c1 (map fst (name_map ix));
          c3 = foldl (\<lambda>d ps. AList.update ps (''parent'', ps) d) c2 (set_iter h (parent_slugs ix))
      in foldl (\<lambda>d (pname, ps). AList.update pname (''parent'', ps) d) c3 parent_name_map)"

text \<open>The loop of lines 174 to 178: for each suggestion the \<^verbatim>\<open>name\<close> of the first protocol
  with that lower-cased name.\<close>

fun suggestion_names :: "protocol list \<Rightarrow> string list \<Rightarrow> error + string list" where
  "suggestion_names protocols [] = Inr []"
| "suggestion_names protocols (s # ss) =
     (case find (\<lambda>p. lower (get_str (name p)) = s) protocols of
        None \<Rightarrow> suggestion_names protocols ss
      | Some p \<Rightarrow>
          (case name p of
             None \<Rightarrow> Inl (KeyError ''name'')
           | Some n \<Rightarrow>
               (case suggestion_names protocols ss of
                  Inl e \<Rightarrow> Inl e
                | Inr ns \<Rightarrow> Inr (n # ns))))"

text \<open>The message of the exception, lines 180 to 182.\<close>

definition not_found_message :: "string \<Rightarrow> string list \<Rightarrow> string" where
  "not_found_message user_input names =
     ''Protocol '' @ [CHR 0x27] @ user_input @ [CHR 0x27] @ '' not found.'' @
     (if names \<noteq> [] then '' Did you mean: '' @ join '', '' names @ ''?'' else [])"

text \<open>Lines 170 to 183.\<close>

definition not_found :: "protocol list \<Rightarrow> string \<Rightarrow> string \<Rightarrow> error + resolution" where
  "not_found protocols user_input normalized =
     (let all_names = map (\<lambda>p. get_str (name p)) protocols;
          suggestions = get_close_matches normalized (map lower all_names) 3 (2 / 5)
      in case suggestion_names protocols suggestions of
           Inl e \<Rightarrow> Inl e
         | Inr names \<Rightarrow> Inl (ProtocolNotFoundError (not_found_message user_input names)))"

text \<open>Step 4 of the source, lines 130 to 168, and the fall through to the failure.\<close>

definition fuzzy_match ::
  "(string \<Rightarrow> nat) \<Rightarrow> protocol list \<Rightarrow> indices \<Rightarrow> (string \<times> string) list \<Rightarrow>
   string \<Rightarrow> string \<Rightarrow> error + resolution" where
  "fuzzy_match h protocols ix parent_name_map user_input normalized =
     (let all_candidates = build_all_candidates h ix parent_name_map;
          matches = get_close_matches normalized (map fst all_candidates) 5 (17 / 20)
      in case matches of
           best # _ \<Rightarrow>
             (case map_of all_candidates best of
                None \<Rightarrow> Inl (KeyError best)
              | Some (kind, key) \<Rightarrow>
                  if kind = ''parent'' then build_parent_result key (parent_children ix)
                  else if kind = ''slug''
                  then (case map_of (slug_map ix) key of
                          None \<Rightarrow> Inl (KeyError key) | Some p \<Rightarrow> record_result p)
                  else (case map_of (name_map ix) key of
                          None \<Rightarrow> Inl (KeyError key) | Some p \<Rightarrow> record_result p))
         | [] \<Rightarrow> not_found protocols user_input normalized)"

text \<open>\<^verbatim>\<open>resolve_protocol\<close>. The snapshot \<open>protocols\<close> is what \<^verbatim>\<open>get_protocols_list\<close> returned;
  \<open>h\<close> ranks the elements of the set \<^verbatim>\<open>parent_slugs\<close> for its two iterations.\<close>

definition resolve_protocol :: "(string \<Rightarrow> nat) \<Rightarrow> protocol list \<Rightarrow> string \<Rightarrow> error + resolution" where
  "resolve_protocol h protocols user_input =
     (let normalized = lower (strip user_input);
          ix = build_indices protocols
      in case map_of (slug_map ix) normalized of
           Some p \<Rightarrow> record_result p
         | None \<Rightarrow>
             (case map_of (name_map ix) normalized of
                Some p \<Rightarrow> record_result p
              | None \<Rightarrow>
                  if normalized \<in> set (parent_slugs ix)
                  then build_parent_result normalized (parent_children ix)
                  else
                    (case find (\<lambda>ps. normalized = replace ps (CHR ''-'') (CHR '' ''))
                            (set_iter h (parent_slugs ix)) of
                       Some ps \<Rightarrow> build_parent_result ps (parent_children ix)
                     | None \<Rightarrow>
                         (let parent_name_map = build_parent_name_map (parent_children ix)
                          in case map_of parent_name_map normalized of
                               Some ps \<Rightarrow> build_parent_result ps (parent_children ix)
                             | None \<Rightarrow>
                                 fuzzy_match h protocols ix parent_name_map
                                   user_input normalized))))"

section \<open>The snapshot in terms of its keys\<close>

text \<open>The keys under which the loop of lines 78 to 88 files a protocol: its lower-cased
  slug and name, a missing one counting as the empty string, and the lower-cased parent slug
  when its \<^verbatim>\<open>parentProtocol\<close> starts with \<^verbatim>\<open>parent#\<close>. The base key is the lower-cased
  base name, under which lines 121 to 126 file the members of the groups. The members of a
  group are the protocols with that parent key, in snapshot order.\<close>

definition slug_key :: "protocol \<Rightarrow> string" where
  "slug_key p = lower (get_str (slug p))"

definition name_key :: "protocol \<Rightarrow> string" where
  "name_key p = lower (get_str (name p))"

definition parent_key :: "protocol \<Rightarrow> string option" where
  "parent_key p =
     (let parent_ref = get_str (parentProtocol p)
      in if parent_ref \<noteq> [] \<and> startswith parent_ref ''parent#''
         then Some (lower (split_rest parent_ref ''#'')) else None)"

definition base_key :: "protocol \<Rightarrow> string" where
  "base_key p = lower (base_name p)"

definition members :: "protocol list \<Rightarrow> string \<Rightarrow> protocol list" where
  "members protocols ps = filter (\<lambda>p. parent_key p = Some ps) protocols"

text \<open>A result comes from one protocol of the snapshot or from one group of it.\<close>

definition from_record :: "protocol list \<Rightarrow> error + resolution \<Rightarrow> bool" where
  "from_record ps res \<longleftrightarrow> (\<exists>p\<in>set ps. res = record_result p)"

definition from_group :: "protocol list \<Rightarrow> error + resolution \<Rightarrow> bool" where
  "from_group ps res \<longleftrightarrow>
     (\<exists>g. members ps g \<noteq> [] \<and> res = build_parent_result g (parent_children (build_indices ps)))"

text \<open>The keys of the snapshot as lists: the parent slugs, the base keys of the protocols
  that belong to a group, and the four kinds of key that the fuzzy tier compares with the
  input.\<close>

definition parent_keys :: "protocol list \<Rightarrow> string list" where
  "parent_keys ps = concat (map (\<lambda>p. case parent_key p of None \<Rightarrow> [] | Some g \<Rightarrow> [g]) ps)"

definition base_keys :: "protocol list \<Rightarrow> string list" where
  "base_keys ps = map base_key (filter (\<lambda>p. parent_key p \<noteq> None) ps)"

definition candidate_keys :: "protocol list \<Rightarrow> string list" where
  "candidate_keys ps = map slug_key ps @ map name_key ps @ parent_keys ps @ base_keys ps"

text \<open>\<^verbatim>\<open>s.replace("-", " ")\<close>.\<close>

abbreviation spaced :: "string \<Rightarrow> string" where
  "spaced s \<equiv> replace s (CHR ''-'') (CHR '' '')"

text \<open>The first four tiers in terms of the snapshot: the normalized input is a slug key, a
  name key, a parent slug, a parent slug with spaces for hyphens, or the base key of a
  protocol that belongs to a group.\<close>

definition structural_match :: "protocol list \<Rightarrow> string \<Rightarrow> bool" where
  "structural_match ps n \<longleftrightarrow>
     n \<in> set (map slug_key ps) \<or> n \<in> set (map name_key ps) \<or> n \<in> set (parent_keys ps) \<or>
     n \<in> set (map spaced (parent_keys ps)) \<or> n \<in> set (base_keys ps)"

text \<open>The fifth tier in terms of the snapshot: the matcher accepts some candidate key at the
  cutoff \<^verbatim>\<open>0.85\<close>.\<close>

definition fuzzy_accepts :: "protocol list \<Rightarrow> string \<Rightarrow> bool" where
  "fuzzy_accepts ps n \<longleftrightarrow> (\<exists>k\<in>set (candidate_keys ps). close_enough n (17 / 20) k)"

text \<open>The result that the fifth tier builds for the winning key \<open>best\<close>, by the kind the key
  is tagged with in \<^verbatim>\<open>all_candidates\<close>. The four loops that fill that dict overwrite: a key
  filed by a later loop carries the later tag.\<close>

definition fuzzy_result :: "protocol list \<Rightarrow> string \<Rightarrow> error + resolution" where
  "fuzzy_result ps best =
     (let ix = build_indices ps
      in case map_of (build_parent_name_map (parent_children ix)) best of
           Some g \<Rightarrow> build_parent_result g (parent_children ix)
         | None \<Rightarrow>
             if best \<in> set (parent_keys ps) then build_parent_result best (parent_children ix)
             else if best \<in> set (map name_key ps)
             then record_result (last (filter (\<lambda>p. name_key p = best) ps))
             else record_result (last (filter (\<lambda>p. slug_key p = best) ps)))"

subsection \<open>The words of the specification\<close>




subsection \<open>Example snapshots\<close>

text \<open>A snapshot with the group \<^verbatim>\<open>aave\<close> of three members, and the result of resolving
  \<^verbatim>\<open>"AAVE "\<close> against it.\<close>

definition example_snapshot :: "protocol list" where
  "example_snapshot =
     [\<lparr>slug = Some ''aave-v2'', name = Some ''Aave V2'', category = Some ''Dexes'',
       parentProtocol = Some ''parent#aave''\<rparr>,
      \<lparr>slug = Some ''uni'', name = Some ''Uniswap'', category = Some ''Dexes'',
       parentProtocol = None\<rparr>,
      \<lparr>slug = Some ''aave-v3'', name = Some ''Aave V3'', category = Some ''Lending'',
       parentProtocol = Some ''parent#Aave''\<rparr>,
      \<lparr>slug = Some ''aave-arc'', name = Some ''Aave Arc'', category = Some '''',
       parentProtocol = Some ''parent#aave''\<rparr>]"

definition example_parent :: resolution where
  "example_parent =
     \<lparr>res_slug = ''aave'', res_name = ''Aave'', is_parent = True,
      children = [(''Aave V2'', ''aave-v2''), (''Aave V3'', ''aave-v3''), (''Aave Arc'', ''aave-arc'')],
      res_category = Some ''Dexes''\<rparr>"

text \<open>A snapshot with the one group \<^verbatim>\<open>foo-bar\<close>, whose parent slug is not the slug of a
  protocol.\<close>

definition hyphen_snapshot :: "protocol list" where
  "hyphen_snapshot =
     [\<lparr>slug = Some ''foo-bar-v1'', name = Some ''Foo Bar V1'', category = None,
       parentProtocol = Some ''parent#foo-bar''\<rparr>]"

text \<open>A snapshot of one protocol that belongs to no group.\<close>

definition uniswap_snapshot :: "protocol list" where
  "uniswap_snapshot =
     [\<lparr>slug = Some ''uni'', name = Some ''Uniswap'', category = Some ''Dexes'',
       parentProtocol = None\<rparr>]"

text \<open>A snapshot with the slugs \<^verbatim>\<open>abcx\<close> and \<^verbatim>\<open>abcy\<close>, which are equally similar to
  \<^verbatim>\<open>abc\<close>.\<close>

definition tie_snapshot :: "protocol list" where
  "tie_snapshot =
     [\<lparr>slug = Some ''abcx'', name = Some ''N1'', category = None, parentProtocol = None\<rparr>,
      \<lparr>slug = Some ''abcy'', name = Some ''N2'', category = None, parentProtocol = None\<rparr>]"




section \<open>Properties of the library functions and of the resolver\<close>

subsection \<open>Case mapping and stripping\<close>

lemma upper_not_lower: "c \<in> set lower_letters \<Longrightarrow> c \<notin> set upper_letters"
  unfolding upper_letters_def lower_letters_def by auto

lemma isspace_not_letter: "isspace c \<Longrightarrow> c \<notin> set upper_letters \<and> c \<notin> set lower_letters"
  unfolding upper_letters_def lower_letters_def isspace_def by auto

lemma length_letters: "length upper_letters = length lower_letters"
  unfolding upper_letters_def lower_letters_def by simp

lemma lower_char_fixed: "c \<notin> set upper_letters \<Longrightarrow> lower_char c = c"
  by (simp add: lower_char_def map_of_zip_is_None[OF length_letters, THEN iffD2])

lemma lower_char_letter: "c \<in> set upper_letters \<Longrightarrow> lower_char c \<in> set lower_letters"
proof -
  assume "c \<in> set upper_letters"
  then obtain d where d: "map_of (zip upper_letters lower_letters) c = Some d"
    using map_of_zip_is_None[OF length_letters, of c] by auto
  then have "d \<in> set lower_letters"
    using set_zip_rightD[of c d upper_letters lower_letters] map_of_SomeD[of _ c d] by blast
  with d show ?thesis by (simp add: lower_char_def)
qed

lemma lower_char_idem [simp]: "lower_char (lower_char c) = lower_char c"
proof (cases "c \<in> set upper_letters")
  case True
  then have "lower_char c \<notin> set upper_letters"
    using lower_char_letter upper_not_lower by blast
  then show ?thesis by (rule lower_char_fixed)
next
  case False
  then show ?thesis by (simp add: lower_char_fixed)
qed

lemma isspace_lower_char [simp]: "isspace (lower_char c) = isspace c"
proof (cases "c \<in> set upper_letters")
  case True
  then show ?thesis
    using isspace_not_letter[of c] isspace_not_letter[of "lower_char c"] lower_char_letter[of c]
    by blast
next
  case False
  then show ?thesis by (simp add: lower_char_fixed)
qed

lemma lower_idem [simp]: "lower (lower s) = lower s"
  by (simp add: lower_def)

lemma lower_append [simp]: "lower (xs @ ys) = lower xs @ lower ys"
  by (simp add: lower_def)

lemma lower_Nil [simp]: "lower [] = []"
  by (simp add: lower_def)

lemma lower_eq_Nil [simp]: "lower s = [] \<longleftrightarrow> s = []"
  by (simp add: lower_def)

lemma length_lower [simp]: "length (lower s) = length s"
  by (simp add: lower_def)

lemma dropWhile_isspace_lower:
  "dropWhile isspace (lower s) = lower (dropWhile isspace s)"
  by (induction s) (simp_all add: lower_def)

lemma rev_lower: "rev (lower s) = lower (rev s)"
  by (simp add: lower_def rev_map)

lemma strip_lower: "strip (lower s) = lower (strip s)"
  by (simp add: strip_def rev_lower dropWhile_isspace_lower)

lemma dropWhile_isspace_append:
  "\<forall>c\<in>set ws. isspace c \<Longrightarrow> dropWhile isspace (ws @ s) = dropWhile isspace s"
  by (induction ws) simp_all

lemma strip_Nil [simp]: "strip [] = []"
  by (simp add: strip_def)

lemma strip_all_space: "\<forall>c\<in>set s. isspace c \<Longrightarrow> strip s = []"
proof -
  assume "\<forall>c\<in>set s. isspace c"
  then have "dropWhile isspace s = []" by (rule dropWhile_eq_Nil_conv[THEN iffD2])
  then have "strip s = rev (dropWhile isspace (rev []))" by (simp only: strip_def)
  then show ?thesis by simp
qed

lemma strip_padded:
  assumes "\<forall>c\<in>set ws1. isspace c" and "\<forall>c\<in>set ws2. isspace c"
  shows "strip (ws1 @ s @ ws2) = strip s"
proof -
  have 1: "dropWhile isspace (ws1 @ s @ ws2) = dropWhile isspace (s @ ws2)"
    using assms(1) by (rule dropWhile_isspace_append)
  show ?thesis
  proof (cases "\<forall>c\<in>set s. isspace c")
    case True
    then have "\<forall>c\<in>set (s @ ws2). isspace c" using assms(2) by auto
    then have "dropWhile isspace (s @ ws2) = []" by (rule dropWhile_eq_Nil_conv[THEN iffD2])
    with 1 have "strip (ws1 @ s @ ws2) = rev (dropWhile isspace (rev []))"
      by (simp only: strip_def)
    moreover have "strip s = []" using True by (rule strip_all_space)
    ultimately show ?thesis by simp
  next
    case False
    then obtain x where "x \<in> set s" "\<not> isspace x" by blast
    then have "dropWhile isspace (s @ ws2) = dropWhile isspace s @ ws2"
      by (rule dropWhile_append1)
    with 1 have "rev (dropWhile isspace (ws1 @ s @ ws2)) = rev ws2 @ rev (dropWhile isspace s)"
      by (simp only: rev_append)
    moreover have "\<forall>c\<in>set (rev ws2). isspace c" using assms(2) by simp
    then have "dropWhile isspace (rev ws2 @ rev (dropWhile isspace s)) =
               dropWhile isspace (rev (dropWhile isspace s))"
      by (rule dropWhile_isspace_append)
    ultimately show ?thesis
      by (simp only: strip_def)
  qed
qed

subsection \<open>The indices\<close>

lemma index_protocol_slug_map:
  "slug_map (index_protocol ix p) = AList.update (slug_key p) p (slug_map ix)"
  by (simp add: index_protocol_def slug_key_def Let_def)

lemma index_protocol_name_map:
  "name_map (index_protocol ix p) = AList.update (name_key p) p (name_map ix)"
  by (simp add: index_protocol_def name_key_def Let_def)

lemma index_protocol_parent_slugs:
  "parent_slugs (index_protocol ix p) =
     (case parent_key p of None \<Rightarrow> parent_slugs ix | Some ps \<Rightarrow> set_add ps (parent_slugs ix))"
  by (simp add: index_protocol_def parent_key_def Let_def)

lemma index_protocol_parent_children:
  "parent_children (index_protocol ix p) =
     (case parent_key p of None \<Rightarrow> parent_children ix
      | Some ps \<Rightarrow> setdefault_append ps p (parent_children ix))"
  by (simp add: index_protocol_def parent_key_def Let_def)

lemma map_of_setdefault_append:
  "map_of (setdefault_append k v d) k' =
     (if k' = k then Some ((case map_of d k of None \<Rightarrow> [] | Some vs \<Rightarrow> vs) @ [v])
      else map_of d k')"
  by (auto simp: setdefault_append_def update_conv' map_add_def split: option.splits)

lemma keys_setdefault_append:
  "fst ` set (setdefault_append k v d) = insert k (fst ` set d)"
  by (auto simp: setdefault_append_def dom_update split: option.splits dest: map_of_SomeD
      simp: rev_image_eqI)

lemma slug_map_fold:
  "map_of (slug_map (foldl index_protocol ix ps)) k =
     (if filter (\<lambda>p. slug_key p = k) ps = [] then map_of (slug_map ix) k
      else Some (last (filter (\<lambda>p. slug_key p = k) ps)))"
  by (induction ps rule: rev_induct)
     (auto simp: index_protocol_slug_map update_conv')

lemma name_map_fold:
  "map_of (name_map (foldl index_protocol ix ps)) k =
     (if filter (\<lambda>p. name_key p = k) ps = [] then map_of (name_map ix) k
      else Some (last (filter (\<lambda>p. name_key p = k) ps)))"
  by (induction ps rule: rev_induct)
     (auto simp: index_protocol_name_map update_conv')

lemma parent_children_fold:
  "map_of (parent_children (foldl index_protocol ix ps)) k =
     (if members ps k = [] then map_of (parent_children ix) k
      else Some ((case map_of (parent_children ix) k of None \<Rightarrow> [] | Some cs \<Rightarrow> cs) @ members ps k))"
  by (induction ps rule: rev_induct)
     (auto simp: index_protocol_parent_children map_of_setdefault_append members_def
           split: option.splits)

lemma parent_slugs_fold:
  "set (parent_slugs (foldl index_protocol ix ps)) =
     set (parent_slugs ix) \<union> {k. members ps k \<noteq> []}"
  by (induction ps rule: rev_induct)
     (auto simp: index_protocol_parent_slugs set_add_def members_def split: option.splits)

lemma parent_children_keys_fold:
  "fst ` set (parent_children (foldl index_protocol ix ps)) =
     fst ` set (parent_children ix) \<union> {k. members ps k \<noteq> []}"
  by (induction ps rule: rev_induct)
     (auto simp: index_protocol_parent_children keys_setdefault_append members_def
           split: option.splits)

lemma slug_map_build:
  "map_of (slug_map (build_indices ps)) k =
     (if filter (\<lambda>p. slug_key p = k) ps = [] then None
      else Some (last (filter (\<lambda>p. slug_key p = k) ps)))"
  by (simp add: build_indices_def slug_map_fold empty_indices_def)

lemma name_map_build:
  "map_of (name_map (build_indices ps)) k =
     (if filter (\<lambda>p. name_key p = k) ps = [] then None
      else Some (last (filter (\<lambda>p. name_key p = k) ps)))"
  by (simp add: build_indices_def name_map_fold empty_indices_def)

lemma parent_children_build:
  "map_of (parent_children (build_indices ps)) k =
     (if members ps k = [] then None else Some (members ps k))"
  by (simp add: build_indices_def parent_children_fold empty_indices_def)

lemma parent_slugs_build:
  "set (parent_slugs (build_indices ps)) = {k. members ps k \<noteq> []}"
  by (simp add: build_indices_def parent_slugs_fold empty_indices_def)

lemma parent_children_keys_build:
  "fst ` set (parent_children (build_indices ps)) = {k. members ps k \<noteq> []}"
  by (simp add: build_indices_def parent_children_keys_fold empty_indices_def)

lemma filter_eq_Nil_key: "filter (\<lambda>p. f p = k) ps = [] \<longleftrightarrow> k \<notin> f ` set ps"
  by (auto simp: filter_empty_conv)

lemma slug_map_None: "map_of (slug_map (build_indices ps)) k = None \<longleftrightarrow> k \<notin> slug_key ` set ps"
  by (auto simp: slug_map_build filter_empty_conv)

lemma name_map_None: "map_of (name_map (build_indices ps)) k = None \<longleftrightarrow> k \<notin> name_key ` set ps"
  by (auto simp: name_map_build filter_empty_conv)

lemma slug_map_keys: "fst ` set (slug_map (build_indices ps)) = slug_key ` set ps"
  using slug_map_None[of ps] map_of_eq_None_iff[of "slug_map (build_indices ps)"] by blast

lemma name_map_keys: "fst ` set (name_map (build_indices ps)) = name_key ` set ps"
  using name_map_None[of ps] map_of_eq_None_iff[of "name_map (build_indices ps)"] by blast

lemma slug_map_Some:
  "map_of (slug_map (build_indices ps)) k = Some p \<Longrightarrow> p \<in> set ps \<and> slug_key p = k"
proof -
  assume a: "map_of (slug_map (build_indices ps)) k = Some p"
  let ?f = "filter (\<lambda>p. slug_key p = k) ps"
  from a have ne: "?f \<noteq> []" and p: "p = last ?f"
    by (auto simp: slug_map_build split: if_splits)
  from ne have "last ?f \<in> set ?f" by (rule last_in_set)
  with p show ?thesis by simp
qed

lemma name_map_Some:
  "map_of (name_map (build_indices ps)) k = Some p \<Longrightarrow> p \<in> set ps \<and> name_key p = k"
proof -
  assume a: "map_of (name_map (build_indices ps)) k = Some p"
  let ?f = "filter (\<lambda>p. name_key p = k) ps"
  from a have ne: "?f \<noteq> []" and p: "p = last ?f"
    by (auto simp: name_map_build split: if_splits)
  from ne have "last ?f \<in> set ?f" by (rule last_in_set)
  with p show ?thesis by simp
qed

lemma members_ne: "members ps k \<noteq> [] \<longleftrightarrow> (\<exists>p\<in>set ps. parent_key p = Some k)"
  by (auto simp: members_def filter_empty_conv)

lemma normalized_variant:
  assumes "lower v = lower s" and "strip s = s"
    and "\<forall>c\<in>set ws1. isspace c" and "\<forall>c\<in>set ws2. isspace c"
  shows "lower (strip (ws1 @ v @ ws2)) = lower s"
proof -
  have "lower (strip (ws1 @ v @ ws2)) = lower (strip v)"
    using assms(3,4) by (simp only: strip_padded)
  also have "\<dots> = strip (lower v)" by (rule strip_lower[symmetric])
  also have "\<dots> = strip (lower s)" by (simp only: assms(1))
  also have "\<dots> = lower (strip s)" by (rule strip_lower)
  also have "\<dots> = lower s" by (simp only: assms(2))
  finally show ?thesis .
qed

subsection \<open>Counting and the most common element\<close>


lemma Counter_Nil [simp]: "Counter [] = []"
  by (simp add: Counter_def)









lemma child_entries_Inr:
  "child_entries cs = Inr es \<Longrightarrow>
   map (\<lambda>(n, s). (Some n, Some s)) es = map (\<lambda>c. (name c, slug c)) cs"
  by (induction cs arbitrary: es) (auto split: option.splits sum.splits)

lemma build_parent_result_Inr:
  assumes "build_parent_result ps pc = Inr r"
    and "cs = (case map_of pc ps of None \<Rightarrow> [] | Some cs \<Rightarrow> cs)"
  shows "res_slug r = ps" and "is_parent r"
    and "child_entries cs = Inr (children r)"
    and "res_name r =
           (case find (\<lambda>child. lower (base_name child) = replace ps (CHR ''-'') (CHR '' '')) cs of
              Some child \<Rightarrow> base_name child
            | None \<Rightarrow> title (replace ps (CHR ''-'') (CHR '' '')))"
    and "child_categories cs = [] \<Longrightarrow> res_category r = None"
    and "child_categories cs \<noteq> [] \<Longrightarrow>
           \<exists>item rest. most_common_1 (Counter (child_categories cs)) = item # rest \<and>
             res_category r = Some (fst item)"
  using assms
  by (auto simp: build_parent_result_def Let_def split: sum.splits list.splits if_splits)

subsection \<open>Loops that fill a dictionary\<close>

lemma map_of_foldl_update:
  "map_of (foldl (\<lambda>d x. AList.update (kf x) (vf x) d) d0 xs) k =
     (case find (\<lambda>x. kf x = k) (rev xs) of Some x \<Rightarrow> Some (vf x) | None \<Rightarrow> map_of d0 k)"
  by (induction xs rule: rev_induct) (simp_all add: update_conv')

lemma distinct_foldl_update:
  "distinct (map fst d0) \<Longrightarrow>
   distinct (map fst (foldl (\<lambda>d x. AList.update (kf x) (vf x) d) d0 xs))"
  by (induction xs rule: rev_induct) (simp_all add: distinct_update)

lemma keys_foldl_update:
  "fst ` set (foldl (\<lambda>d x. AList.update (kf x) (vf x) d) d0 xs) = fst ` set d0 \<union> kf ` set xs"
  by (induction xs rule: rev_induct) (auto simp: dom_update)

lemma find_None_image: "find (\<lambda>x. kf x = k) xs = None \<longleftrightarrow> k \<notin> kf ` set xs"
  by (auto simp: find_None_iff)

lemma find_Some_key: "find (\<lambda>x. kf x = k) xs = Some x \<Longrightarrow> x \<in> set xs \<and> kf x = k"
  by (auto simp: find_Some_iff)

subsection \<open>The close matches\<close>

lemma nlargest_subset: "set (nlargest n xs) \<subseteq> set xs"
  unfolding nlargest_def using set_take_subset[of n "rev (sort xs)"] by simp

lemma length_nlargest: "length (nlargest n xs) \<le> n"
  by (simp add: nlargest_def)

lemma sort_eq_Nil: "sort xs = [] \<longleftrightarrow> xs = []"
  by (metis length_0_conv length_sort)

lemma nlargest_eq_Nil: "0 < n \<Longrightarrow> nlargest n xs = [] \<longleftrightarrow> xs = []"
  by (auto simp: nlargest_def sort_eq_Nil)

lemma nlargest_hd:
  assumes "nlargest n xs = y # ys"
  shows "y \<in> set xs" and "\<forall>x\<in>set xs. x \<le> y"
proof -
  from assms obtain zs where zs: "rev (sort xs) = y # zs"
    unfolding nlargest_def by (cases "rev (sort xs)"; cases n) auto
  then have s: "sort xs = rev zs @ [y]" by (simp add: rev_eq_Cons_iff)
  have "y \<in> set (sort xs)" unfolding s by simp
  then show "y \<in> set xs" by simp
  have "sorted (rev zs @ [y])" using sorted_sort[of xs] unfolding s .
  then have "\<forall>x\<in>set (rev zs @ [y]). x \<le> y" by (auto simp: sorted_append)
  then have "\<forall>x\<in>set (sort xs). x \<le> y" unfolding s .
  then show "\<forall>x\<in>set xs. x \<le> y" by simp
qed

lemma get_close_matches_subset:
  "x \<in> set (get_close_matches word poss n cutoff) \<Longrightarrow> x \<in> set poss \<and> close_enough word cutoff x"
  using nlargest_subset[of n "map (\<lambda>x. (ratio x word, x)) (filter (close_enough word cutoff) poss)"]
  by (auto simp: get_close_matches_def Let_def)

lemma length_get_close_matches: "length (get_close_matches word poss n cutoff) \<le> n"
  by (simp add: get_close_matches_def Let_def length_nlargest)

lemma get_close_matches_eq_Nil:
  "0 < n \<Longrightarrow> get_close_matches word poss n cutoff = [] \<longleftrightarrow>
     (\<forall>x\<in>set poss. \<not> close_enough word cutoff x)"
  by (simp add: get_close_matches_def Let_def nlargest_eq_Nil filter_empty_conv)

lemma get_close_matches_hd:
  assumes "get_close_matches word poss n cutoff = best # rest"
  shows "best \<in> set poss" and "close_enough word cutoff best"
    and "\<forall>x\<in>set poss. close_enough word cutoff x \<longrightarrow> (ratio x word, x) \<le> (ratio best word, best)"
proof -
  let ?res = "map (\<lambda>x. (ratio x word, x)) (filter (close_enough word cutoff) poss)"
  from assms obtain y ys where n: "nlargest n ?res = y # ys" and b: "best = snd y"
    by (auto simp: get_close_matches_def Let_def)
  from nlargest_hd[OF n] have y: "y \<in> set ?res" and max: "\<forall>x\<in>set ?res. x \<le> y" by blast+
  from y b have yb: "y = (ratio best word, best)" by auto
  from y b show "best \<in> set poss" and "close_enough word cutoff best" by auto
  show "\<forall>x\<in>set poss. close_enough word cutoff x \<longrightarrow> (ratio x word, x) \<le> (ratio best word, best)"
    using max unfolding yb by auto
qed

subsection \<open>The groups and the parent names\<close>

lemma distinct_setdefault_append:
  "distinct (map fst d) \<Longrightarrow> distinct (map fst (setdefault_append k v d))"
  by (auto simp: setdefault_append_def distinct_update map_of_eq_None_iff split: option.splits)

lemma distinct_parent_children_fold:
  "distinct (map fst (parent_children ix)) \<Longrightarrow>
   distinct (map fst (parent_children (foldl index_protocol ix ps)))"
  by (induction ps rule: rev_induct)
     (auto simp: index_protocol_parent_children distinct_setdefault_append split: option.splits)

lemma distinct_parent_children: "distinct (map fst (parent_children (build_indices ps)))"
  by (simp add: build_indices_def distinct_parent_children_fold empty_indices_def)

lemma parent_children_entry:
  "(k, cs) \<in> set (parent_children (build_indices ps)) \<longleftrightarrow>
     members ps k \<noteq> [] \<and> cs = members ps k"
  using map_of_eq_Some_iff[OF distinct_parent_children, of ps k cs]
  by (auto simp: parent_children_build split: if_splits)

lemma build_parent_name_map_snoc:
  "build_parent_name_map (pc @ [(g, cs)]) =
     foldl (\<lambda>m child. AList.update (lower (base_name child)) g m) (build_parent_name_map pc) cs"
  by (simp add: build_parent_name_map_def)

lemma map_of_parent_name_map_snoc:
  "map_of (build_parent_name_map (pc @ [(g, cs)])) k =
     (if k \<in> base_key ` set cs then Some g else map_of (build_parent_name_map pc) k)"
proof -
  have "find (\<lambda>x. lower (base_name x) = k) (rev cs) = None \<longleftrightarrow> k \<notin> base_key ` set cs"
    by (auto simp: find_None_iff base_key_def)
  then show ?thesis
    by (simp only: build_parent_name_map_snoc map_of_foldl_update) (auto split: option.splits)
qed

lemma map_of_parent_name_map_Some:
  "map_of (build_parent_name_map pc) k = Some g \<Longrightarrow>
   \<exists>cs. (g, cs) \<in> set pc \<and> k \<in> base_key ` set cs"
proof (induction pc rule: rev_induct)
  case Nil
  then show ?case by (simp add: build_parent_name_map_def)
next
  case (snoc x pc)
  obtain g' cs' where x: "x = (g', cs')" by (cases x)
  show ?case
  proof (cases "k \<in> base_key ` set cs'")
    case True
    with snoc.prems have "g = g'" by (simp add: x map_of_parent_name_map_snoc)
    with True show ?thesis unfolding x by auto
  next
    case False
    with snoc.prems have "map_of (build_parent_name_map pc) k = Some g"
      by (simp add: x map_of_parent_name_map_snoc)
    from snoc.IH[OF this] show ?thesis by auto
  qed
qed

lemma map_of_parent_name_map_None:
  "map_of (build_parent_name_map pc) k = None \<longleftrightarrow>
     (\<forall>(g, cs)\<in>set pc. k \<notin> base_key ` set cs)"
proof (induction pc rule: rev_induct)
  case Nil
  then show ?case by (simp add: build_parent_name_map_def)
next
  case (snoc x pc)
  obtain g' cs' where x: "x = (g', cs')" by (cases x)
  show ?case unfolding x by (simp add: map_of_parent_name_map_snoc snoc.IH)
qed

lemma distinct_parent_name_map: "distinct (map fst (build_parent_name_map pc))"
proof (induction pc rule: rev_induct)
  case Nil
  then show ?case by (simp add: build_parent_name_map_def)
next
  case (snoc x pc)
  obtain g' cs' where x: "x = (g', cs')" by (cases x)
  show ?case unfolding x build_parent_name_map_snoc
    using snoc.IH by (rule distinct_foldl_update)
qed

lemma parent_name_map_None:
  "map_of (build_parent_name_map (parent_children (build_indices ps))) k = None \<longleftrightarrow>
     (\<forall>p\<in>set ps. parent_key p \<noteq> None \<longrightarrow> base_key p \<noteq> k)"
proof -
  have "(\<forall>(g, cs)\<in>set (parent_children (build_indices ps)). k \<notin> base_key ` set cs) \<longleftrightarrow>
        (\<forall>p\<in>set ps. parent_key p \<noteq> None \<longrightarrow> base_key p \<noteq> k)" (is "?l \<longleftrightarrow> ?r")
  proof
    assume l: ?l
    show ?r
    proof (intro ballI impI)
      fix p assume p: "p \<in> set ps" "parent_key p \<noteq> None"
      then obtain g where g: "parent_key p = Some g" by auto
      with p have m: "p \<in> set (members ps g)" by (simp add: members_def)
      then have "(g, members ps g) \<in> set (parent_children (build_indices ps))"
        by (auto simp: parent_children_entry)
      with l have "k \<notin> base_key ` set (members ps g)" by blast
      with m show "base_key p \<noteq> k" by blast
    qed
  next
    assume r: ?r
    show ?l
    proof (clarify)
      fix g cs p
      assume "(g, cs) \<in> set (parent_children (build_indices ps))" "p \<in> set cs"
        "k = base_key p"
      then have "p \<in> set (members ps g)" by (simp add: parent_children_entry)
      then have "p \<in> set ps" "parent_key p \<noteq> None" by (simp_all add: members_def)
      with r \<open>k = base_key p\<close> show False by blast
    qed
  qed
  then show ?thesis by (simp only: map_of_parent_name_map_None)
qed

lemma parent_name_map_Some:
  assumes "map_of (build_parent_name_map (parent_children (build_indices ps))) k = Some g"
  shows "members ps g \<noteq> []" and "\<exists>p\<in>set (members ps g). base_key p = k"
proof -
  from map_of_parent_name_map_Some[OF assms] obtain cs where
    cs: "(g, cs) \<in> set (parent_children (build_indices ps))" and k: "k \<in> base_key ` set cs"
    by blast
  from cs have 1: "members ps g \<noteq> []" and 2: "cs = members ps g"
    by (simp_all add: parent_children_entry)
  from 1 show "members ps g \<noteq> []" .
  from k 2 show "\<exists>p\<in>set (members ps g). base_key p = k" by auto
qed

subsection \<open>The candidates of the fuzzy tier\<close>

lemma map_of_rev_distinct: "distinct (map fst xs) \<Longrightarrow> map_of (rev xs) k = map_of xs k"
proof (induction xs)
  case Nil
  then show ?case by simp
next
  case (Cons x xs)
  obtain a b where x: "x = (a, b)" by (cases x)
  from Cons.prems have "map_of xs a = None" by (simp add: x map_of_eq_None_iff)
  with Cons show ?case by (auto simp: x map_add_def split: option.splits)
qed

lemma find_fst: "find (\<lambda>x. fst x = k) xs = map_option (\<lambda>v. (k, v)) (map_of xs k)"
  by (induction xs) auto

lemma find_eq: "find (\<lambda>x. x = k) xs = (if k \<in> set xs then Some k else None)"
  by (induction xs) auto

lemma map_of_all_candidates:
  assumes "distinct (map fst pnm)"
  shows "map_of (build_all_candidates h ix pnm) k =
     (case map_of pnm k of
        Some g \<Rightarrow> Some (''parent'', g)
      | None \<Rightarrow>
          if k \<in> set (parent_slugs ix) then Some (''parent'', k)
          else if k \<in> fst ` set (name_map ix) then Some (''name'', k)
          else if k \<in> fst ` set (slug_map ix) then Some (''slug'', k)
          else None)"
proof -
  have "map_of (rev pnm) k = map_of pnm k" using assms by (rule map_of_rev_distinct)
  then show ?thesis
    by (simp add: build_all_candidates_def Let_def case_prod_unfold map_of_foldl_update
          find_fst find_eq set_iter_def split: option.splits)
qed

lemma keys_all_candidates:
  "set (map fst (build_all_candidates h ix pnm)) =
     fst ` set (slug_map ix) \<union> fst ` set (name_map ix) \<union> set (parent_slugs ix) \<union> fst ` set pnm"
  by (simp add: build_all_candidates_def Let_def case_prod_unfold keys_foldl_update set_iter_def)

subsection \<open>The shape of a result\<close>

lemma record_result_Inr:
  "record_result p = Inr r \<Longrightarrow> \<not> is_parent r \<and> children r = []"
  by (auto simp: record_result_def split: option.splits)

lemma record_result_not_found: "record_result p \<noteq> Inl (ProtocolNotFoundError msg)"
  by (auto simp: record_result_def split: option.splits)

lemma build_parent_result_not_found:
  "build_parent_result g pc \<noteq> Inl (ProtocolNotFoundError msg)"
proof -
  have "child_entries cs \<noteq> Inl (ProtocolNotFoundError msg)" for cs
    by (induction cs) (auto split: option.splits sum.splits)
  then show ?thesis
    by (auto simp: build_parent_result_def Let_def split: sum.splits list.splits if_splits)
qed

lemma fuzzy_match_cases:
  assumes "ix = build_indices ps" and "pnm = build_parent_name_map (parent_children ix)"
  shows "from_record ps (fuzzy_match h ps ix pnm user_input normalized) \<or>
         from_group ps (fuzzy_match h ps ix pnm user_input normalized) \<or>
         fuzzy_match h ps ix pnm user_input normalized = not_found ps user_input normalized"
proof -
  let ?ac = "build_all_candidates h ix pnm"
  let ?m = "get_close_matches normalized (map fst ?ac) 5 (17 / 20)"
  show ?thesis
  proof (cases ?m)
    case Nil
    then show ?thesis by (simp add: fuzzy_match_def)
  next
    case (Cons best rest)
    have d: "distinct (map fst pnm)" unfolding assms(2) by (rule distinct_parent_name_map)
    note look = map_of_all_candidates[OF d, of h ix best]
    consider (pn) g where "map_of pnm best = Some g"
      | (ps) "map_of pnm best = None" "best \<in> set (parent_slugs ix)"
      | (nm) "map_of pnm best = None" "best \<notin> set (parent_slugs ix)"
             "best \<in> fst ` set (name_map ix)"
      | (sl) "map_of pnm best = None" "best \<notin> set (parent_slugs ix)"
             "best \<notin> fst ` set (name_map ix)" "best \<in> fst ` set (slug_map ix)"
      | (no) "map_of ?ac best = None"
      by (cases "map_of pnm best"; cases "best \<in> set (parent_slugs ix)";
          cases "best \<in> fst ` set (name_map ix)"; cases "best \<in> fst ` set (slug_map ix)")
         (use look in \<open>simp_all\<close>)
    then show ?thesis
    proof cases
      case pn
      then have "members ps g \<noteq> []" unfolding assms by (rule parent_name_map_Some)
      moreover have "fuzzy_match h ps ix pnm user_input normalized =
                     build_parent_result g (parent_children ix)"
        using pn look Cons by (simp add: fuzzy_match_def)
      ultimately show ?thesis unfolding from_group_def assms(1) by blast
    next
      case ps
      then have "members ps best \<noteq> []" unfolding assms by (simp add: parent_slugs_build)
      moreover have "fuzzy_match h ps ix pnm user_input normalized =
                     build_parent_result best (parent_children ix)"
        using ps look Cons by (simp add: fuzzy_match_def)
      ultimately show ?thesis unfolding from_group_def assms(1) by blast
    next
      case nm
      then obtain p where p: "map_of (name_map ix) best = Some p"
        using map_of_eq_None_iff[of "name_map ix" best] by auto
      then have "p \<in> set ps" unfolding assms by (simp add: name_map_Some)
      moreover have "fuzzy_match h ps ix pnm user_input normalized = record_result p"
        using nm look Cons p by (simp add: fuzzy_match_def)
      ultimately show ?thesis unfolding from_record_def by blast
    next
      case sl
      then obtain p where p: "map_of (slug_map ix) best = Some p"
        using map_of_eq_None_iff[of "slug_map ix" best] by auto
      then have "p \<in> set ps" unfolding assms by (simp add: slug_map_Some)
      moreover have "fuzzy_match h ps ix pnm user_input normalized = record_result p"
        using sl look Cons p by (simp add: fuzzy_match_def)
      ultimately show ?thesis unfolding from_record_def by blast
    next
      case no
      have "best \<in> set ?m" using Cons by simp
      then have "best \<in> set (map fst ?ac)" using get_close_matches_subset by blast
      with no show ?thesis using map_of_eq_None_iff[of ?ac best] by simp
    qed
  qed
qed

lemma resolve_protocol_cases:
  "from_record ps (resolve_protocol h ps user_input) \<or>
   from_group ps (resolve_protocol h ps user_input) \<or>
   resolve_protocol h ps user_input = not_found ps user_input (lower (strip user_input))"
proof -
  let ?n = "lower (strip user_input)"
  let ?ix = "build_indices ps"
  let ?pnm = "build_parent_name_map (parent_children ?ix)"
  let ?r = "resolve_protocol h ps user_input"
  consider (sl) p where "map_of (slug_map ?ix) ?n = Some p"
    | (nm) p where "map_of (slug_map ?ix) ?n = None" "map_of (name_map ?ix) ?n = Some p"
    | (ps) "map_of (slug_map ?ix) ?n = None" "map_of (name_map ?ix) ?n = None"
           "?n \<in> set (parent_slugs ?ix)"
    | (sp) g where "map_of (slug_map ?ix) ?n = None" "map_of (name_map ?ix) ?n = None"
           "?n \<notin> set (parent_slugs ?ix)"
           "find (\<lambda>g. ?n = replace g (CHR ''-'') (CHR '' '')) (set_iter h (parent_slugs ?ix)) = Some g"
    | (pn) g where "map_of (slug_map ?ix) ?n = None" "map_of (name_map ?ix) ?n = None"
           "?n \<notin> set (parent_slugs ?ix)"
           "find (\<lambda>g. ?n = replace g (CHR ''-'') (CHR '' '')) (set_iter h (parent_slugs ?ix)) = None"
           "map_of ?pnm ?n = Some g"
    | (fz) "map_of (slug_map ?ix) ?n = None" "map_of (name_map ?ix) ?n = None"
           "?n \<notin> set (parent_slugs ?ix)"
           "find (\<lambda>g. ?n = replace g (CHR ''-'') (CHR '' '')) (set_iter h (parent_slugs ?ix)) = None"
           "map_of ?pnm ?n = None"
    by (cases "map_of (slug_map ?ix) ?n"; cases "map_of (name_map ?ix) ?n";
        cases "find (\<lambda>g. ?n = replace g (CHR ''-'') (CHR '' '')) (set_iter h (parent_slugs ?ix))";
        cases "map_of ?pnm ?n") auto
  then show ?thesis
  proof cases
    case sl
    then have "p \<in> set ps" by (simp add: slug_map_Some)
    moreover have "?r = record_result p" using sl by (simp add: resolve_protocol_def)
    ultimately show ?thesis unfolding from_record_def by blast
  next
    case nm
    then have "p \<in> set ps" by (simp add: name_map_Some)
    moreover have "?r = record_result p" using nm by (simp add: resolve_protocol_def)
    ultimately show ?thesis unfolding from_record_def by blast
  next
    case ps
    then have "members ps ?n \<noteq> []" by (simp add: parent_slugs_build)
    moreover have "?r = build_parent_result ?n (parent_children ?ix)"
      using ps by (simp add: resolve_protocol_def)
    ultimately show ?thesis unfolding from_group_def by blast
  next
    case sp
    from sp(4) have "g \<in> set (set_iter h (parent_slugs ?ix))" by (auto simp: find_Some_iff)
    then have "members ps g \<noteq> []" by (simp add: set_iter_def parent_slugs_build)
    moreover have "?r = build_parent_result g (parent_children ?ix)"
      using sp by (simp add: resolve_protocol_def)
    ultimately show ?thesis unfolding from_group_def by blast
  next
    case pn
    from pn(5) have "members ps g \<noteq> []" by (rule parent_name_map_Some)
    moreover have "?r = build_parent_result g (parent_children ?ix)"
      using pn by (simp add: resolve_protocol_def)
    ultimately show ?thesis unfolding from_group_def by blast
  next
    case fz
    then have "?r = fuzzy_match h ps ?ix ?pnm user_input ?n"
      by (simp add: resolve_protocol_def Let_def)
    with fuzzy_match_cases[OF refl refl, of ps h user_input ?n] show ?thesis by simp
  qed
qed

subsection \<open>Results that come from a group\<close>

lemma not_found_Inl: "not_found ps user_input normalized \<noteq> Inr r"
  by (auto simp: not_found_def Let_def split: sum.splits)

lemma group_of_parent_result:
  assumes "resolve_protocol h ps user_input = Inr r" and "is_parent r"
  shows "members ps (res_slug r) \<noteq> []"
    and "build_parent_result (res_slug r) (parent_children (build_indices ps)) = Inr r"
proof -
  from resolve_protocol_cases[of ps h user_input] assms(1)
  consider (rec) "from_record ps (Inr r)" | (grp) "from_group ps (Inr r)"
    using not_found_Inl by metis
  then have "members ps (res_slug r) \<noteq> [] \<and>
             build_parent_result (res_slug r) (parent_children (build_indices ps)) = Inr r"
  proof cases
    case rec
    then obtain p where "record_result p = Inr r" unfolding from_record_def by metis
    with assms(2) show ?thesis using record_result_Inr by blast
  next
    case grp
    then obtain g where g: "members ps g \<noteq> []"
      "build_parent_result g (parent_children (build_indices ps)) = Inr r"
      unfolding from_group_def by metis
    from build_parent_result_Inr(1)[OF g(2) refl] have "res_slug r = g" .
    with g show ?thesis by simp
  qed
  then show "members ps (res_slug r) \<noteq> []"
    and "build_parent_result (res_slug r) (parent_children (build_indices ps)) = Inr r"
    by blast+
qed

lemma group_lookup:
  "members ps g \<noteq> [] \<Longrightarrow>
   (case map_of (parent_children (build_indices ps)) g of None \<Rightarrow> [] | Some cs \<Rightarrow> cs) = members ps g"
  by (simp add: parent_children_build)

lemma example_resolves:
  "resolve_protocol insertion_rank example_snapshot ''AAVE '' = Inr example_parent"
  by code_simp

lemma example_is_parent: "is_parent example_parent"
  by (simp add: example_parent_def)

subsection \<open>Stripping and replacing\<close>

lemma dropWhile_hd: "ys \<noteq> [] \<Longrightarrow> \<not> P (hd ys) \<Longrightarrow> dropWhile P ys = ys"
  by (cases ys) simp_all

lemma dropWhile_shorter: "ys \<noteq> [] \<Longrightarrow> P (hd ys) \<Longrightarrow> length (dropWhile P ys) < length ys"
  using length_dropWhile_le[of P "tl ys"] by (cases ys) auto

lemma strip_fixed:
  assumes "s \<noteq> []" and "\<not> isspace (hd s)" and "\<not> isspace (last s)"
  shows "strip s = s"
proof -
  from assms(1,2) have 1: "dropWhile isspace s = s" by (rule dropWhile_hd)
  have "rev s \<noteq> []" using assms(1) by simp
  moreover have "\<not> isspace (hd (rev s))" using assms(3) by (simp add: hd_rev)
  ultimately have 2: "dropWhile isspace (rev s) = rev s" by (rule dropWhile_hd)
  show ?thesis by (simp only: strip_def 1 2 rev_rev_ident)
qed

lemma length_strip_le: "length (strip s) \<le> length (dropWhile isspace s)"
proof -
  have "length (strip s) = length (dropWhile isspace (rev (dropWhile isspace s)))"
    by (simp only: strip_def length_rev)
  also have "\<dots> \<le> length (rev (dropWhile isspace s))" by (rule length_dropWhile_le)
  finally show ?thesis by (simp only: length_rev)
qed

lemma strip_fixedD:
  assumes "strip s = s" and "s \<noteq> []"
  shows "\<not> isspace (hd s)" and "\<not> isspace (last s)"
proof -
  show h: "\<not> isspace (hd s)"
  proof
    assume "isspace (hd s)"
    with assms(2) have "length (dropWhile isspace s) < length s" by (rule dropWhile_shorter)
    with length_strip_le[of s] have "length (strip s) < length s" by linarith
    then show False by (simp add: assms(1))
  qed
  from assms(2) h have 1: "dropWhile isspace s = s" by (rule dropWhile_hd)
  show "\<not> isspace (last s)"
  proof
    assume "isspace (last s)"
    then have "isspace (hd (rev s))" by (simp add: hd_rev)
    moreover have "rev s \<noteq> []" using assms(2) by simp
    ultimately have "length (dropWhile isspace (rev s)) < length (rev s)"
      by (intro dropWhile_shorter)
    then have "length (strip s) < length s" by (simp only: strip_def 1 length_rev)
    then show False by (simp add: assms(1))
  qed
qed

lemma replace_Nil [simp]: "replace [] a b = []"
  by (simp add: replace_def)

lemma replace_eq_Nil [simp]: "replace s a b = [] \<longleftrightarrow> s = []"
  by (simp add: replace_def)

lemma hd_replace: "s \<noteq> [] \<Longrightarrow> hd (replace s a b) = (if hd s = a then b else hd s)"
  by (cases s) (simp_all add: replace_def)

lemma last_replace: "s \<noteq> [] \<Longrightarrow> last (replace s a b) = (if last s = a then b else last s)"
  by (simp add: replace_def last_map)

lemma replace_idem: "a \<noteq> b \<Longrightarrow> replace (replace s a b) a b = replace s a b"
  by (simp add: replace_def)

lemma isspace_space: "isspace (CHR '' '')"
  by (simp add: isspace_def)

lemma strip_spaced_fixed:
  assumes "strip (replace s (CHR ''-'') (CHR '' '')) = replace s (CHR ''-'') (CHR '' '')"
  shows "strip s = s"
proof (cases "s = []")
  case True
  then show ?thesis by simp
next
  case False
  then have ne: "replace s (CHR ''-'') (CHR '' '') \<noteq> []" by simp
  from strip_fixedD[OF assms ne] False
  have "\<not> isspace (hd s)" and "\<not> isspace (last s)"
    using isspace_space by (auto simp: hd_replace last_replace split: if_splits)
  with False show ?thesis by (rule strip_fixed)
qed

lemma lower_fixed_chars:
  assumes "lower s = s" and "c \<in> set s"
  shows "lower_char c = c"
proof -
  from assms(1) have "map lower_char s = map id s" by (simp add: lower_def)
  then have "\<forall>x\<in>set s. lower_char x = id x" by (simp only: map_eq_conv)
  with assms(2) show ?thesis by simp
qed

lemma lower_replace_fixed:
  assumes "lower s = s"
  shows "lower (replace s (CHR ''-'') (CHR '' '')) = replace s (CHR ''-'') (CHR '' '')"
proof -
  have sp: "lower_char (CHR '' '') = CHR '' ''"
    using isspace_not_letter[OF isspace_space] by (simp add: lower_char_fixed)
  have "lower_char (if c = CHR ''-'' then CHR '' '' else c) = (if c = CHR ''-'' then CHR '' '' else c)"
    if "c \<in> set s" for c
    using lower_fixed_chars[OF assms that] sp by simp
  then show ?thesis by (simp add: lower_def replace_def)
qed

lemma set_parent_keys: "g \<in> set (parent_keys ps) \<longleftrightarrow> members ps g \<noteq> []"
proof -
  have "g \<in> set (parent_keys ps) \<longleftrightarrow> (\<exists>p\<in>set ps. parent_key p = Some g)"
    by (induction ps) (auto simp: parent_keys_def split: option.splits)
  then show ?thesis by (simp only: members_ne)
qed

lemma set_base_keys:
  "k \<in> set (base_keys ps) \<longleftrightarrow> (\<exists>p\<in>set ps. parent_key p \<noteq> None \<and> base_key p = k)"
  by (auto simp: base_keys_def)

lemma parent_slugs_parent_keys: "set (parent_slugs (build_indices ps)) = set (parent_keys ps)"
  by (auto simp: parent_slugs_build set_parent_keys)

lemma lower_parent_key: "parent_key p = Some g \<Longrightarrow> lower g = g"
  by (auto simp: parent_key_def Let_def split: if_splits)

lemma lower_parent_keys: "g \<in> set (parent_keys ps) \<Longrightarrow> lower g = g"
  by (auto simp: parent_keys_def lower_parent_key split: option.splits)

subsection \<open>The tiers in terms of the snapshot\<close>

lemma parent_name_map_keys:
  "fst ` set (build_parent_name_map (parent_children (build_indices ps))) = set (base_keys ps)"
proof -
  let ?pnm = "build_parent_name_map (parent_children (build_indices ps))"
  have "k \<in> fst ` set ?pnm \<longleftrightarrow> k \<in> set (base_keys ps)" for k
    using parent_name_map_None[of ps k] map_of_eq_None_iff[of ?pnm k]
    by (auto simp: set_base_keys)
  then show ?thesis by blast
qed

lemma all_candidates_keys:
  "set (map fst (build_all_candidates h (build_indices ps)
                   (build_parent_name_map (parent_children (build_indices ps))))) =
   set (candidate_keys ps)"
  by (simp add: keys_all_candidates[simplified] slug_map_keys name_map_keys
        parent_slugs_parent_keys parent_name_map_keys candidate_keys_def Un_assoc)

lemma find_spaced_None:
  "find (\<lambda>g. n = spaced g) (set_iter h (parent_slugs (build_indices ps))) = None \<longleftrightarrow>
     n \<notin> set (map spaced (parent_keys ps))"
  by (auto simp: find_None_iff set_iter_def parent_slugs_parent_keys)

lemma resolve_protocol_fuzzy:
  assumes "\<not> structural_match ps (lower (strip user_input))"
  shows "resolve_protocol h ps user_input =
           fuzzy_match h ps (build_indices ps)
             (build_parent_name_map (parent_children (build_indices ps)))
             user_input (lower (strip user_input))"
proof -
  let ?n = "lower (strip user_input)"
  from assms have
    1: "map_of (slug_map (build_indices ps)) ?n = None" and
    2: "map_of (name_map (build_indices ps)) ?n = None" and
    3: "?n \<notin> set (parent_slugs (build_indices ps))" and
    4: "find (\<lambda>g. ?n = spaced g) (set_iter h (parent_slugs (build_indices ps))) = None" and
    5: "map_of (build_parent_name_map (parent_children (build_indices ps))) ?n = None"
    by (simp_all add: structural_match_def slug_map_keys name_map_keys
          parent_slugs_parent_keys find_spaced_None map_of_eq_None_iff parent_name_map_keys)
  show ?thesis by (simp add: resolve_protocol_def Let_def 1 2 3 4 5)
qed

lemma from_record_not_found: "\<not> from_record ps (Inl (ProtocolNotFoundError msg))"
  using record_result_not_found unfolding from_record_def by metis

lemma from_group_not_found: "\<not> from_group ps (Inl (ProtocolNotFoundError msg))"
  using build_parent_result_not_found unfolding from_group_def by metis

lemma resolve_protocol_structural:
  assumes "structural_match ps (lower (strip user_input))"
  shows "resolve_protocol h ps user_input \<noteq> Inl (ProtocolNotFoundError msg)"
proof -
  let ?n = "lower (strip user_input)"
  let ?ix = "build_indices ps"
  let ?pnm = "build_parent_name_map (parent_children ?ix)"
  let ?r = "resolve_protocol h ps user_input"
  consider (sl) p where "map_of (slug_map ?ix) ?n = Some p"
    | (nm) p where "map_of (slug_map ?ix) ?n = None" "map_of (name_map ?ix) ?n = Some p"
    | (ps) "map_of (slug_map ?ix) ?n = None" "map_of (name_map ?ix) ?n = None"
           "?n \<in> set (parent_slugs ?ix)"
    | (sp) g where "map_of (slug_map ?ix) ?n = None" "map_of (name_map ?ix) ?n = None"
           "?n \<notin> set (parent_slugs ?ix)"
           "find (\<lambda>g. ?n = spaced g) (set_iter h (parent_slugs ?ix)) = Some g"
    | (pn) g where "map_of (slug_map ?ix) ?n = None" "map_of (name_map ?ix) ?n = None"
           "?n \<notin> set (parent_slugs ?ix)"
           "find (\<lambda>g. ?n = spaced g) (set_iter h (parent_slugs ?ix)) = None"
           "map_of ?pnm ?n = Some g"
    | (fz) "map_of (slug_map ?ix) ?n = None" "map_of (name_map ?ix) ?n = None"
           "?n \<notin> set (parent_slugs ?ix)"
           "find (\<lambda>g. ?n = spaced g) (set_iter h (parent_slugs ?ix)) = None"
           "map_of ?pnm ?n = None"
    by (cases "map_of (slug_map ?ix) ?n"; cases "map_of (name_map ?ix) ?n";
        cases "find (\<lambda>g. ?n = spaced g) (set_iter h (parent_slugs ?ix))";
        cases "map_of ?pnm ?n") auto
  then show ?thesis
  proof cases
    case sl
    then show ?thesis using record_result_not_found by (simp add: resolve_protocol_def)
  next
    case nm
    then show ?thesis using record_result_not_found by (simp add: resolve_protocol_def)
  next
    case ps
    then show ?thesis using build_parent_result_not_found by (simp add: resolve_protocol_def)
  next
    case sp
    then show ?thesis using build_parent_result_not_found by (simp add: resolve_protocol_def)
  next
    case pn
    then show ?thesis using build_parent_result_not_found by (simp add: resolve_protocol_def)
  next
    case fz
    then have "\<not> structural_match ps ?n"
      by (simp add: structural_match_def slug_map_keys name_map_keys
          parent_slugs_parent_keys find_spaced_None map_of_eq_None_iff parent_name_map_keys)
    with assms show ?thesis by contradiction
  qed
qed

lemma fuzzy_match_Nil:
  assumes "\<not> fuzzy_accepts ps normalized"
  shows "fuzzy_match h ps (build_indices ps)
           (build_parent_name_map (parent_children (build_indices ps))) user_input normalized =
         not_found ps user_input normalized"
proof -
  have "get_close_matches normalized
          (map fst (build_all_candidates h (build_indices ps)
                      (build_parent_name_map (parent_children (build_indices ps))))) 5 (17 / 20) = []"
    using assms
    by (simp only: get_close_matches_eq_Nil[of 5, simplified] all_candidates_keys fuzzy_accepts_def)
       simp
  then show ?thesis by (simp add: fuzzy_match_def)
qed

lemma fuzzy_match_hit:
  assumes "get_close_matches normalized
             (map fst (build_all_candidates h (build_indices ps)
                         (build_parent_name_map (parent_children (build_indices ps)))))
             5 (17 / 20) = best # rest"
  shows "fuzzy_match h ps (build_indices ps)
           (build_parent_name_map (parent_children (build_indices ps))) user_input normalized =
         fuzzy_result ps best"
proof -
  let ?ix = "build_indices ps"
  let ?pnm = "build_parent_name_map (parent_children ?ix)"
  let ?ac = "build_all_candidates h ?ix ?pnm"
  note look = map_of_all_candidates[OF distinct_parent_name_map, of h ?ix "parent_children ?ix" best]
  have "best \<in> set (map fst ?ac)" using get_close_matches_hd(1)[OF assms] .
  then have key: "best \<in> set (candidate_keys ps)" by (simp only: all_candidates_keys)
  show ?thesis
  proof (cases "map_of ?pnm best")
    case (Some g)
    then show ?thesis using look assms by (simp add: fuzzy_match_def fuzzy_result_def)
  next
    case None
    then have nb: "best \<notin> set (base_keys ps)"
      by (simp add: map_of_eq_None_iff parent_name_map_keys)
    show ?thesis
    proof (cases "best \<in> set (parent_keys ps)")
      case True
      then show ?thesis using look assms None
        by (simp add: fuzzy_match_def fuzzy_result_def parent_slugs_parent_keys)
    next
      case np: False
      show ?thesis
      proof (cases "best \<in> name_key ` set ps")
        case True
        then have "filter (\<lambda>p. name_key p = best) ps \<noteq> []" by (auto simp: filter_empty_conv)
        then have "map_of (name_map ?ix) best = Some (last (filter (\<lambda>p. name_key p = best) ps))"
          by (simp add: name_map_build)
        then show ?thesis using look assms None np True
          by (simp add: fuzzy_match_def fuzzy_result_def parent_slugs_parent_keys name_map_keys)
      next
        case False
        with key nb np have sl: "best \<in> slug_key ` set ps" by (simp add: candidate_keys_def)
        then have "filter (\<lambda>p. slug_key p = best) ps \<noteq> []" by (auto simp: filter_empty_conv)
        then have "map_of (slug_map ?ix) best = Some (last (filter (\<lambda>p. slug_key p = best) ps))"
          by (simp add: slug_map_build)
        then show ?thesis using look assms None np False sl
          by (simp add: fuzzy_match_def fuzzy_result_def parent_slugs_parent_keys name_map_keys
                slug_map_keys)
      qed
    qed
  qed
qed

lemma fuzzy_result_not_found:
  "fuzzy_result ps best \<noteq> Inl (ProtocolNotFoundError msg)"
  using record_result_not_found build_parent_result_not_found
  by (simp add: fuzzy_result_def Let_def split: option.splits)

lemma fuzzy_match_Cons:
  assumes "fuzzy_accepts ps normalized"
  shows "\<exists>best rest.
           get_close_matches normalized
             (map fst (build_all_candidates h (build_indices ps)
                         (build_parent_name_map (parent_children (build_indices ps)))))
             5 (17 / 20) = best # rest"
proof -
  have "get_close_matches normalized
             (map fst (build_all_candidates h (build_indices ps)
                         (build_parent_name_map (parent_children (build_indices ps)))))
             5 (17 / 20) \<noteq> []"
    using assms
    by (simp only: get_close_matches_eq_Nil[of 5, simplified] all_candidates_keys fuzzy_accepts_def)
       simp
  then show ?thesis by (meson list.exhaust)
qed

subsection \<open>Scores, suggestions and their order\<close>

lemma calculate_ratio_zero: "len \<noteq> 0 \<Longrightarrow> calculate_ratio 0 len = 0"
  by (simp add: calculate_ratio_def)

lemma close_enough_empty_word:
  assumes "k \<noteq> []" and "0 < cutoff"
  shows "\<not> close_enough [] cutoff k"
  using assms by (simp add: close_enough_def real_quick_ratio_def calculate_ratio_zero)

lemma close_enough_empty_key:
  assumes "close_enough word cutoff []" and "0 < cutoff"
  shows "word = []"
proof (rule ccontr)
  assume "word \<noteq> []"
  then have "real_quick_ratio [] word = 0"
    by (simp add: real_quick_ratio_def calculate_ratio_zero)
  with assms show False by (simp add: close_enough_def)
qed

lemma close_enough_ratio: "close_enough word cutoff k \<Longrightarrow> cutoff \<le> ratio k word"
  by (simp add: close_enough_def)

lemma suggestion_names_Inr:
  "suggestion_names ps ss = Inr names \<Longrightarrow>
   length names \<le> length ss \<and>
   (\<forall>s\<in>set names. \<exists>p\<in>set ps. name p = Some s \<and> lower s \<in> set ss)"
proof (induction ss arbitrary: names)
  case Nil
  then show ?case by simp
next
  case (Cons s ss)
  show ?case
  proof (cases "find (\<lambda>p. lower (get_str (name p)) = s) ps")
    case None
    with Cons.prems have "suggestion_names ps ss = Inr names" by simp
    from Cons.IH[OF this] show ?thesis by auto
  next
    case (Some p)
    then have p: "p \<in> set ps" "lower (get_str (name p)) = s" by (auto simp: find_Some_iff)
    from Cons.prems Some obtain n ns where
      n: "name p = Some n" and ns: "suggestion_names ps ss = Inr ns" and names: "names = n # ns"
      by (auto split: option.splits sum.splits)
    from p n have "lower n = s" by (simp add: get_str_def)
    with Cons.IH[OF ns] p n show ?thesis unfolding names by auto
  qed
qed

lemma suggestion_names_total:
  "\<forall>s\<in>set ss. \<forall>p\<in>set ps. name_key p = s \<longrightarrow> name p \<noteq> None \<Longrightarrow>
   \<exists>names. suggestion_names ps ss = Inr names"
proof (induction ss)
  case Nil
  then show ?case by simp
next
  case (Cons s ss)
  then obtain ns where ns: "suggestion_names ps ss = Inr ns" by auto
  show ?case
  proof (cases "find (\<lambda>p. lower (get_str (name p)) = s) ps")
    case None
    with ns show ?thesis by simp
  next
    case (Some p)
    then have "p \<in> set ps" "name_key p = s" by (auto simp: find_Some_iff name_key_def)
    with Cons.prems obtain n where "name p = Some n" by auto
    with Some ns show ?thesis by simp
  qed
qed

lemma suggestion_names_lower:
  "suggestion_names ps ss = Inr names \<Longrightarrow> set ss \<subseteq> name_key ` set ps \<Longrightarrow>
   map lower names = ss"
proof (induction ss arbitrary: names)
  case Nil
  then show ?case by simp
next
  case (Cons s ss)
  from Cons.prems(2) have "find (\<lambda>p. lower (get_str (name p)) = s) ps \<noteq> None"
    by (auto simp: find_None_iff name_key_def)
  then obtain p where f: "find (\<lambda>p. lower (get_str (name p)) = s) ps = Some p" by auto
  then have p: "lower (get_str (name p)) = s" by (auto simp: find_Some_iff)
  from Cons.prems(1) f obtain n ns where
    n: "name p = Some n" and ns: "suggestion_names ps ss = Inr ns" and names: "names = n # ns"
    by (auto split: option.splits sum.splits)
  from p n have "lower n = s" by (simp add: get_str_def)
  moreover have "map lower ns = ss" using Cons.IH[OF ns] Cons.prems(2) by simp
  ultimately show ?case unfolding names by simp
qed

lemma sorted_map_fst: "sorted (xs :: ('a::linorder \<times> 'b::linorder) list) \<Longrightarrow> sorted (map fst xs)"
  by (induction xs) (auto simp: less_eq_prod_def)

lemma get_close_matches_sorted:
  "sorted (rev (map (\<lambda>x. ratio x word) (get_close_matches word poss n cutoff)))"
proof -
  let ?res = "map (\<lambda>x. (ratio x word, x)) (filter (close_enough word cutoff) poss)"
  let ?L = "nlargest n ?res"
  have "\<forall>y\<in>set ?L. ratio (snd y) word = fst y"
    using nlargest_subset[of n ?res] by auto
  then have 1: "map (\<lambda>x. ratio x word) (map snd ?L) = map fst ?L"
    by (simp only: map_map map_eq_conv comp_def)
  have 2: "rev (map fst ?L) = map fst (drop (length ?res - n) (sort ?res))"
    by (simp add: nlargest_def take_rev rev_map)
  have 3: "sorted (map fst (drop (length ?res - n) (sort ?res)))"
    by (intro sorted_map_fst sorted_wrt_drop) simp
  have "get_close_matches word poss n cutoff = map snd ?L"
    by (simp add: get_close_matches_def Let_def)
  then show ?thesis by (simp only: 1 2 3)
qed

lemma not_found_suggestions:
  assumes "\<not> structural_match ps n"
  shows "\<exists>names. suggestion_names ps
                   (get_close_matches n (map lower (map (\<lambda>p. get_str (name p)) ps)) 3 (2 / 5)) =
                 Inr names"
proof (rule suggestion_names_total, intro ballI impI)
  fix s p
  assume s: "s \<in> set (get_close_matches n (map lower (map (\<lambda>p. get_str (name p)) ps)) 3 (2 / 5))"
    and p: "p \<in> set ps" "name_key p = s"
  show "name p \<noteq> None"
  proof
    assume "name p = None"
    with p(2) have "s = []" by (simp add: name_key_def get_str_def)
    with s have "close_enough n (2 / 5) []" using get_close_matches_subset by blast
    then have "n = []" by (rule close_enough_empty_key) simp
    with p \<open>s = []\<close> have "name_key p = n" by simp
    with p(1) have "n \<in> set (map name_key ps)" by (auto intro: rev_image_eqI)
    with assms show False by (simp add: structural_match_def)
  qed
qed

lemma in_set_mapD: "x \<in> set (map f xs) \<Longrightarrow> \<exists>y\<in>set xs. f y = x"
  by auto

subsection \<open>Base names and title case\<close>






text \<open>Title case, position by position.\<close>

lemma length_title_from [simp]: "length (title_from prev s) = length s"
  by (induction s arbitrary: prev) simp_all





section \<open>The claims\<close>

subsection \<open>C1: the exact-slug tier\<close>

text \<open>
  Claim C1, as it holds of the code. Let \<open>R\<close> be a protocol of the snapshot that has a slug \<open>s\<close>
  and a name \<open>n\<close>, such that no other protocol of the snapshot has the same lower-cased slug
  and such that \<open>s\<close> has no leading or trailing whitespace. Then resolving \<open>s\<close> written in any
  letter case (\<open>v\<close> with \<open>lower v = lower s\<close>) and surrounded by any whitespace returns the
  non-parent result with slug \<open>s\<close>, name \<open>n\<close>, the category of \<open>R\<close> and no children.
\<close>

theorem exact_slug_resolves:
  assumes "R \<in> set protocols" and "slug R = Some s" and "name R = Some n"
    and "\<forall>p\<in>set protocols. slug_key p = lower s \<longrightarrow> p = R"
    and "strip s = s"
    and "lower v = lower s"
    and "\<forall>c\<in>set ws1. isspace c" and "\<forall>c\<in>set ws2. isspace c"
  shows "resolve_protocol h protocols (ws1 @ v @ ws2) =
           Inr \<lparr>res_slug = s, res_name = n, is_parent = False, children = [],
                res_category = category R\<rparr>"
proof -
  let ?f = "filter (\<lambda>p. slug_key p = lower s) protocols"
  have norm: "lower (strip (ws1 @ v @ ws2)) = lower s"
    using assms(6,5,7,8) by (rule normalized_variant)
  have "slug_key R = lower s" using assms(2) by (simp add: slug_key_def get_str_def)
  with assms(1) have ne: "?f \<noteq> []" by (auto simp: filter_empty_conv)
  then have "last ?f \<in> set ?f" by (rule last_in_set)
  with assms(4) have "last ?f = R" by simp
  with ne have "map_of (slug_map (build_indices protocols)) (lower s) = Some R"
    by (simp add: slug_map_build)
  with norm show ?thesis
    by (simp add: resolve_protocol_def record_result_def assms(2,3))
qed

text \<open>The theorem at a snapshot of two protocols, for the input \<^verbatim>\<open>aAVE-v3\<close> with a space
  before it and a tab and a no-break space after it.\<close>

theorem exact_slug_resolves_witness:
  "resolve_protocol insertion_rank
     [\<lparr>slug = Some ''Aave-V3'', name = Some ''Aave V3'', category = Some ''Lending'',
       parentProtocol = Some ''parent#aave''\<rparr>,
      \<lparr>slug = Some ''uni'', name = Some ''Uniswap'', category = None, parentProtocol = None\<rparr>]
     ('' '' @ ''aAVE-v3'' @ [CHR 0x09, CHR 0xA0]) =
   Inr \<lparr>res_slug = ''Aave-V3'', res_name = ''Aave V3'', is_parent = False, children = [],
        res_category = Some ''Lending''\<rparr>"
proof -
  let ?R = "\<lparr>slug = Some ''Aave-V3'', name = Some ''Aave V3'', category = Some ''Lending'',
       parentProtocol = Some ''parent#aave''\<rparr>"
  let ?ps = "[?R, \<lparr>slug = Some ''uni'', name = Some ''Uniswap'', category = None, parentProtocol = None\<rparr>]"
  have 1: "?R \<in> set ?ps" by simp
  have 4: "\<forall>p\<in>set ?ps. slug_key p = lower ''Aave-V3'' \<longrightarrow> p = ?R" by code_simp
  have 5: "strip ''Aave-V3'' = ''Aave-V3''" by code_simp
  have 6: "lower ''aAVE-v3'' = lower ''Aave-V3''" by code_simp
  have 7: "\<forall>c\<in>set '' ''. isspace c" by code_simp
  have 8: "\<forall>c\<in>set [CHR 0x09, CHR 0xA0]. isspace c" by code_simp
  show ?thesis
    using exact_slug_resolves[OF 1 _ _ 4 5 6 7 8, of "''Aave V3''" insertion_rank] by simp
qed

text \<open>
  Claim C1 as stated, for every protocol with a unique slug, fails for a slug with surrounding
  whitespace: the input is stripped, the keys of the slug index are not. The snapshot holds
  the one protocol with slug \<^verbatim>\<open>" a"\<close> and name \<^verbatim>\<open>"Zed"\<close>; resolving its slug raises
  \<^verbatim>\<open>ProtocolNotFoundError\<close>.
\<close>

theorem exact_slug_counterexample:
  "resolve_protocol insertion_rank
     [\<lparr>slug = Some '' a'', name = Some ''Zed'', category = None, parentProtocol = None\<rparr>]
     '' a'' =
   Inl (ProtocolNotFoundError (''Protocol '' @ [CHR 0x27] @ '' a'' @ [CHR 0x27] @ '' not found.''))"
  by code_simp

subsection \<open>C2: the winner of the fuzzy tier\<close>

text \<open>
  Claim C2, as it holds of the code. Let \<open>n\<close> be the input, stripped and lower-cased, let none
  of the first four tiers match \<open>n\<close>, and let the matcher accept some candidate key at the
  cutoff 0.85 (the similarity ratio and its two quick upper bounds are all at least 0.85).
  Then the result is built from the accepted candidate key \<open>best\<close> whose pair of ratio and
  key is the greatest: the highest ratio wins, and among keys of equal ratio the greatest key
  in the order of strings, whatever the order of insertion. The result is built by the
  kind that \<open>best\<close> is tagged with (\<open>fuzzy_result\<close>).
\<close>

theorem fuzzy_tier_winner:
  assumes "n = lower (strip user_input)"
    and "\<not> structural_match ps n"
    and "fuzzy_accepts ps n"
  shows "\<exists>best\<in>set (candidate_keys ps).
           close_enough n (17 / 20) best \<and>
           (\<forall>k\<in>set (candidate_keys ps).
              close_enough n (17 / 20) k \<longrightarrow> (ratio k n, k) \<le> (ratio best n, best)) \<and>
           resolve_protocol h ps user_input = fuzzy_result ps best"
proof -
  let ?keys = "map fst (build_all_candidates h (build_indices ps)
                         (build_parent_name_map (parent_children (build_indices ps))))"
  from fuzzy_match_Cons[OF assms(3), of h] obtain best rest where
    m: "get_close_matches n ?keys 5 (17 / 20) = best # rest" by blast
  note hd = get_close_matches_hd[OF m]
  have "resolve_protocol h ps user_input =
          fuzzy_match h ps (build_indices ps)
             (build_parent_name_map (parent_children (build_indices ps))) user_input n"
    using assms(2) unfolding assms(1) by (rule resolve_protocol_fuzzy)
  also have "\<dots> = fuzzy_result ps best" using m by (rule fuzzy_match_hit)
  finally have r: "resolve_protocol h ps user_input = fuzzy_result ps best" .
  from hd(1) have "best \<in> set (candidate_keys ps)" by (simp only: all_candidates_keys)
  moreover from hd(3) have "\<forall>k\<in>set (candidate_keys ps).
              close_enough n (17 / 20) k \<longrightarrow> (ratio k n, k) \<le> (ratio best n, best)"
    by (simp only: all_candidates_keys)
  ultimately show ?thesis using hd(2) r by blast
qed

text \<open>The theorem at the snapshot with the slugs \<^verbatim>\<open>abcx\<close> and \<^verbatim>\<open>abcy\<close>, for the input
  \<^verbatim>\<open>abc\<close>: both slugs have the ratio 6/7 and the greater one wins.\<close>

theorem fuzzy_tier_winner_witness:
  "resolve_protocol insertion_rank tie_snapshot ''abc'' = fuzzy_result tie_snapshot ''abcy''"
proof -
  have n: "''abc'' = lower (strip ''abc'')" by code_simp
  have 2: "\<not> structural_match tie_snapshot ''abc''" by code_simp
  have y: "close_enough ''abc'' (17 / 20) ''abcy''" by code_simp
  have keys: "candidate_keys tie_snapshot = [''abcx'', ''abcy'', ''n1'', ''n2'']" by code_simp
  have 3: "fuzzy_accepts tie_snapshot ''abc''"
    unfolding fuzzy_accepts_def keys using y by simp
  from fuzzy_tier_winner[OF n 2 3, of insertion_rank] obtain best where
    b: "best \<in> set (candidate_keys tie_snapshot)" and
    c: "close_enough ''abc'' (17 / 20) best" and
    m: "\<forall>k\<in>set (candidate_keys tie_snapshot).
          close_enough ''abc'' (17 / 20) k \<longrightarrow> (ratio k ''abc'', k) \<le> (ratio best ''abc'', best)" and
    r: "resolve_protocol insertion_rank tie_snapshot ''abc'' = fuzzy_result tie_snapshot best"
    by blast
  from m y have le: "(ratio ''abcy'' ''abc'', ''abcy'') \<le> (ratio best ''abc'', best)"
    unfolding keys by simp
  have x: "\<not> (ratio ''abcy'' ''abc'', ''abcy'') \<le> (ratio ''abcx'' ''abc'', ''abcx'')" by code_simp
  have n1: "\<not> close_enough ''abc'' (17 / 20) ''n1''" by code_simp
  have n2: "\<not> close_enough ''abc'' (17 / 20) ''n2''" by code_simp
  from b have "best = ''abcx'' \<or> best = ''abcy'' \<or> best = ''n1'' \<or> best = ''n2''"
    unfolding keys by simp
  with le x c n1 n2 have "best = ''abcy''" by blast
  with r show ?thesis by simp
qed

text \<open>
  Claim C2 as stated breaks the tie by insertion order. In the snapshot above the candidate
  keys are inserted in the order \<^verbatim>\<open>abcx\<close>, \<^verbatim>\<open>abcy\<close>, \<^verbatim>\<open>n1\<close>, \<^verbatim>\<open>n2\<close>; the matcher accepts
  \<^verbatim>\<open>abcx\<close> and \<^verbatim>\<open>abcy\<close> with equal ratios; and the result is built from \<^verbatim>\<open>abcy\<close>, the key
  inserted second, because \<^verbatim>\<open>heapq.nlargest\<close> orders the pairs of score and key.
\<close>

theorem fuzzy_tier_counterexample:
  "map fst (build_all_candidates insertion_rank (build_indices tie_snapshot)
              (build_parent_name_map (parent_children (build_indices tie_snapshot)))) =
     [''abcx'', ''abcy'', ''n1'', ''n2''] \<and>
   close_enough ''abc'' (17 / 20) ''abcx'' \<and> close_enough ''abc'' (17 / 20) ''abcy'' \<and>
   ratio ''abcx'' ''abc'' = ratio ''abcy'' ''abc'' \<and>
   resolve_protocol insertion_rank tie_snapshot ''abc'' =
     Inr \<lparr>res_slug = ''abcy'', res_name = ''N2'', is_parent = False, children = [],
          res_category = None\<rparr>"
  by code_simp

subsection \<open>C3: the category of a group\<close>



subsection \<open>C4: a protocol without a slug\<close>

text \<open>
  Claim C4 says that no error other than \<^verbatim>\<open>ProtocolNotFoundError\<close> escapes the resolver, also
  for a snapshot with a protocol that lacks its slug or name. The loop that builds the indices
  reads both with \<^verbatim>\<open>p.get(key, "")\<close>; the results are built with \<^verbatim>\<open>p["slug"]\<close> and
  \<^verbatim>\<open>p["name"]\<close>. For the snapshot of one protocol that has the name \<^verbatim>\<open>"Acme"\<close> and no slug,
  resolving \<^verbatim>\<open>"acme"\<close> matches the name and raises \<^verbatim>\<open>KeyError\<close>.
\<close>

theorem missing_slug_raises_KeyError:
  "resolve_protocol insertion_rank
     [\<lparr>slug = None, name = Some ''Acme'', category = None, parentProtocol = None\<rparr>]
     ''acme'' = Inl (KeyError ''slug'')"
  by code_simp

subsection \<open>C5: the children of a result\<close>

text \<open>
  Claim C5. Every result that \<^verbatim>\<open>resolve_protocol\<close> returns satisfies: when \<open>is_parent\<close> is
  true, \<open>children\<close> is not empty and lists the name and slug of exactly the protocols that
  reference the result's slug as their parent (\<open>members\<close>: the protocols whose
  \<^verbatim>\<open>parentProtocol\<close> is \<^verbatim>\<open>parent#\<close> followed by that slug in any letter case), in snapshot
  order; when \<open>is_parent\<close> is false, \<open>children\<close> is empty.
\<close>

theorem children_invariant:
  assumes "resolve_protocol h ps user_input = Inr r"
  shows "(is_parent r \<longrightarrow>
            children r \<noteq> [] \<and>
            map (\<lambda>(n, s). (Some n, Some s)) (children r) =
              map (\<lambda>p. (name p, slug p)) (members ps (res_slug r))) \<and>
         (\<not> is_parent r \<longrightarrow> children r = [])"
proof (intro conjI impI)
  assume par: "is_parent r"
  note g = group_of_parent_result[OF assms par]
  from build_parent_result_Inr(3)[OF g(2) group_lookup[OF g(1), symmetric]]
  have "child_entries (members ps (res_slug r)) = Inr (children r)" .
  then show eq: "map (\<lambda>(n, s). (Some n, Some s)) (children r) =
              map (\<lambda>p. (name p, slug p)) (members ps (res_slug r))"
    by (rule child_entries_Inr)
  show "children r \<noteq> []"
  proof
    assume "children r = []"
    with eq have "members ps (res_slug r) = []" by simp
    with g(1) show False by contradiction
  qed
next
  assume npar: "\<not> is_parent r"
  from resolve_protocol_cases[of ps h user_input] assms
  consider (rec) "from_record ps (Inr r)" | (grp) "from_group ps (Inr r)"
    using not_found_Inl by metis
  then show "children r = []"
  proof cases
    case rec
    then obtain p where "record_result p = Inr r" unfolding from_record_def by metis
    then show ?thesis using record_result_Inr by blast
  next
    case grp
    then obtain g where "build_parent_result g (parent_children (build_indices ps)) = Inr r"
      unfolding from_group_def by metis
    from build_parent_result_Inr(2)[OF this refl] npar show ?thesis by contradiction
  qed
qed

text \<open>The theorem at the example: the three children are the three members of the group.\<close>

theorem children_invariant_witness:
  "map (\<lambda>(n, s). (Some n, Some s))
     [(''Aave V2'', ''aave-v2''), (''Aave V3'', ''aave-v3''), (''Aave Arc'', ''aave-arc'')] =
   map (\<lambda>p. (name p, slug p)) (members example_snapshot ''aave'')"
proof -
  have slug: "res_slug example_parent = ''aave''" by (simp add: example_parent_def)
  have ch: "children example_parent =
     [(''Aave V2'', ''aave-v2''), (''Aave V3'', ''aave-v3''), (''Aave Arc'', ''aave-arc'')]"
    by (simp add: example_parent_def)
  from children_invariant[OF example_resolves] example_is_parent
  show ?thesis unfolding slug ch by blast
qed

subsection \<open>C6: the display name of a group\<close>




subsection \<open>C7: a parent slug written with spaces\<close>

text \<open>
  Claim C7, as it holds of the code. Let \<open>P\<close> be a parent slug of the snapshot such that
  \<open>P\<close> with every hyphen replaced by a space has no leading or trailing whitespace (so \<open>P\<close>
  neither starts nor ends with a hyphen or whitespace), neither \<open>P\<close> nor that spaced form is
  the lower-cased slug or name of a protocol, and no other parent slug of the snapshot has
  the same spaced form. Then resolving \<open>P\<close> and resolving its spaced form give the same
  outcome, that of \<^verbatim>\<open>_build_parent_result\<close> for \<open>P\<close>, under every iteration order of the set
  of parent slugs.
\<close>

theorem hyphen_space_same_group:
  assumes "P \<in> set (parent_keys ps)"
    and "strip (spaced P) = spaced P"
    and "P \<notin> slug_key ` set ps" and "P \<notin> name_key ` set ps"
    and "spaced P \<notin> slug_key ` set ps" and "spaced P \<notin> name_key ` set ps"
    and "\<forall>g\<in>set (parent_keys ps). spaced g = spaced P \<longrightarrow> g = P"
  shows "resolve_protocol h ps P = build_parent_result P (parent_children (build_indices ps)) \<and>
         resolve_protocol h ps (spaced P) =
           build_parent_result P (parent_children (build_indices ps))"
proof
  let ?ix = "build_indices ps"
  have lP: "lower P = P" using assms(1) by (rule lower_parent_keys)
  have sP: "strip P = P" using assms(2) by (rule strip_spaced_fixed)
  have nP: "lower (strip P) = P" by (simp only: sP lP)
  have nQ: "lower (strip (spaced P)) = spaced P"
    by (simp only: assms(2) lower_replace_fixed[OF lP])
  have inP: "P \<in> set (parent_slugs ?ix)" using assms(1) by (simp only: parent_slugs_parent_keys)
  show "resolve_protocol h ps P = build_parent_result P (parent_children ?ix)"
    using assms(3,4) inP
    by (simp add: resolve_protocol_def nP slug_map_None[THEN iffD2] name_map_None[THEN iffD2])
  have none: "map_of (slug_map ?ix) (spaced P) = None" "map_of (name_map ?ix) (spaced P) = None"
    using assms(5,6) by (simp_all add: slug_map_None name_map_None)
  show "resolve_protocol h ps (spaced P) = build_parent_result P (parent_children ?ix)"
  proof (cases "spaced P \<in> set (parent_slugs ?ix)")
    case True
    then have "spaced P \<in> set (parent_keys ps)" by (simp only: parent_slugs_parent_keys)
    moreover have "spaced (spaced P) = spaced P" by (simp add: replace_idem)
    ultimately have "spaced P = P" using assms(7) by blast
    with True none show ?thesis by (simp add: resolve_protocol_def nQ nP)
  next
    case False
    let ?f = "find (\<lambda>g. spaced P = spaced g) (set_iter h (parent_slugs ?ix))"
    have "P \<in> set (set_iter h (parent_slugs ?ix))" using inP by (simp add: set_iter_def)
    then have "?f \<noteq> None" by (auto simp: find_None_iff)
    then obtain g where g: "?f = Some g" by auto
    then have "g \<in> set (set_iter h (parent_slugs ?ix))" "spaced P = spaced g"
      by (auto simp: find_Some_iff)
    then have "g \<in> set (parent_keys ps)" "spaced g = spaced P"
      by (simp_all add: set_iter_def parent_slugs_parent_keys)
    with assms(7) have "g = P" by blast
    with g False none show ?thesis by (simp add: resolve_protocol_def nQ)
  qed
qed

text \<open>The theorem at the snapshot with the one group \<^verbatim>\<open>foo-bar\<close>.\<close>

theorem hyphen_space_same_group_witness:
  "resolve_protocol insertion_rank hyphen_snapshot ''foo-bar'' =
     build_parent_result ''foo-bar'' (parent_children (build_indices hyphen_snapshot)) \<and>
   resolve_protocol insertion_rank hyphen_snapshot ''foo bar'' =
     build_parent_result ''foo-bar'' (parent_children (build_indices hyphen_snapshot))"
proof -
  have 1: "''foo-bar'' \<in> set (parent_keys hyphen_snapshot)" by code_simp
  have 2: "strip (spaced ''foo-bar'') = spaced ''foo-bar''" by code_simp
  have 3: "''foo-bar'' \<notin> slug_key ` set hyphen_snapshot" by code_simp
  have 4: "''foo-bar'' \<notin> name_key ` set hyphen_snapshot" by code_simp
  have 5: "spaced ''foo-bar'' \<notin> slug_key ` set hyphen_snapshot" by code_simp
  have 6: "spaced ''foo-bar'' \<notin> name_key ` set hyphen_snapshot" by code_simp
  have 7: "\<forall>g\<in>set (parent_keys hyphen_snapshot). spaced g = spaced ''foo-bar'' \<longrightarrow> g = ''foo-bar''"
    by code_simp
  have 8: "spaced ''foo-bar'' = ''foo bar''" by code_simp
  show ?thesis
    using hyphen_space_same_group[OF 1 2 3 4 5 6 7, of insertion_rank] unfolding 8 .
qed

text \<open>
  Claim C7 as stated, for every parent slug, fails when the parent slug is also the slug of
  a protocol: the exact-slug tier answers for \<^verbatim>\<open>"foo-bar"\<close> with that protocol, the structural
  tier answers for \<^verbatim>\<open>"foo bar"\<close> with the group.
\<close>

theorem hyphen_space_counterexample:
  "resolve_protocol insertion_rank
     [\<lparr>slug = Some ''foo-bar'', name = Some ''Foo Bar V1'', category = None,
       parentProtocol = Some ''parent#foo-bar''\<rparr>] ''foo-bar'' =
     Inr \<lparr>res_slug = ''foo-bar'', res_name = ''Foo Bar V1'', is_parent = False, children = [],
          res_category = None\<rparr> \<and>
   resolve_protocol insertion_rank
     [\<lparr>slug = Some ''foo-bar'', name = Some ''Foo Bar V1'', category = None,
       parentProtocol = Some ''parent#foo-bar''\<rparr>] ''foo bar'' =
     Inr \<lparr>res_slug = ''foo-bar'', res_name = ''Foo Bar'', is_parent = True,
          children = [(''Foo Bar V1'', ''foo-bar'')], res_category = None\<rparr>"
  by code_simp

subsection \<open>C8: the failure and its suggestions\<close>

text \<open>
  Claim C8, as it holds of the code. Let \<open>n\<close> be the input, stripped and lower-cased. \<^verbatim>\<open>resolve_protocol\<close> raises
  \<^verbatim>\<open>ProtocolNotFoundError\<close> if and only if no tier matches: \<open>n\<close> is no slug key, name key,
  parent slug, spaced parent slug or base key of a grouped protocol, and the matcher accepts
  no candidate key at the cutoff 0.85. The message of the error is built from the input as
  it was given and from a list of at most three suggested names. Each of them is the name of
  a protocol of the snapshot and, lower-cased, has a similarity ratio of at least 0.4 to
  \<open>n\<close>; the list is in the order of decreasing ratio; and it is empty when no lower-cased
  name of the snapshot reaches the ratio 0.4.
\<close>

theorem not_found_iff:
  assumes "n = lower (strip user_input)"
  shows "((\<exists>msg. resolve_protocol h ps user_input = Inl (ProtocolNotFoundError msg)) \<longleftrightarrow>
            \<not> structural_match ps n \<and> \<not> fuzzy_accepts ps n) \<and>
         (\<forall>msg. resolve_protocol h ps user_input = Inl (ProtocolNotFoundError msg) \<longrightarrow>
            (\<exists>names. msg = not_found_message user_input names \<and> length names \<le> 3 \<and>
               (\<forall>s\<in>set names. \<exists>p\<in>set ps. name p = Some s \<and> 2 / 5 \<le> ratio (lower s) n) \<and>
               sorted (rev (map (\<lambda>s. ratio (lower s) n) names)) \<and>
               ((\<forall>p\<in>set ps. ratio (name_key p) n < 2 / 5) \<longrightarrow> names = [])))"
proof -
  let ?r = "resolve_protocol h ps user_input"
  let ?sugg = "get_close_matches n (map lower (map (\<lambda>p. get_str (name p)) ps)) 3 (2 / 5)"
  have miss: "\<not> structural_match ps n \<and> \<not> fuzzy_accepts ps n"
    if "?r = Inl (ProtocolNotFoundError msg)" for msg
  proof -
    have 1: "\<not> structural_match ps n"
      using that resolve_protocol_structural[of ps user_input h msg] assms by blast
    then have "?r = fuzzy_match h ps (build_indices ps)
             (build_parent_name_map (parent_children (build_indices ps))) user_input n"
      unfolding assms by (rule resolve_protocol_fuzzy)
    with that have f: "fuzzy_match h ps (build_indices ps)
             (build_parent_name_map (parent_children (build_indices ps))) user_input n =
             Inl (ProtocolNotFoundError msg)" by simp
    have "\<not> fuzzy_accepts ps n"
    proof
      assume "fuzzy_accepts ps n"
      from fuzzy_match_Cons[OF this, of h] obtain best rest where
        "get_close_matches n
             (map fst (build_all_candidates h (build_indices ps)
                         (build_parent_name_map (parent_children (build_indices ps)))))
             5 (17 / 20) = best # rest" by blast
      from fuzzy_match_hit[OF this, of user_input] f fuzzy_result_not_found[of ps best msg]
      show False by simp
    qed
    with 1 show ?thesis by simp
  qed
  have hit: "\<exists>names. ?r = Inl (ProtocolNotFoundError (not_found_message user_input names)) \<and>
               suggestion_names ps ?sugg = Inr names"
    if "\<not> structural_match ps n" "\<not> fuzzy_accepts ps n"
  proof -
    from that(1) have "?r = fuzzy_match h ps (build_indices ps)
             (build_parent_name_map (parent_children (build_indices ps))) user_input n"
      unfolding assms by (rule resolve_protocol_fuzzy)
    also have "\<dots> = not_found ps user_input n" using that(2) by (rule fuzzy_match_Nil)
    finally have r: "?r = not_found ps user_input n" .
    from not_found_suggestions[OF that(1)] obtain names where
      "suggestion_names ps ?sugg = Inr names" by blast
    with r show ?thesis by (simp add: not_found_def Let_def)
  qed
  have iff: "(\<exists>msg. ?r = Inl (ProtocolNotFoundError msg)) \<longleftrightarrow>
            \<not> structural_match ps n \<and> \<not> fuzzy_accepts ps n"
    using miss hit by blast
  have detail: "\<exists>names. msg = not_found_message user_input names \<and> length names \<le> 3 \<and>
               (\<forall>s\<in>set names. \<exists>p\<in>set ps. name p = Some s \<and> 2 / 5 \<le> ratio (lower s) n) \<and>
               sorted (rev (map (\<lambda>s. ratio (lower s) n) names)) \<and>
               ((\<forall>p\<in>set ps. ratio (name_key p) n < 2 / 5) \<longrightarrow> names = [])"
    if "?r = Inl (ProtocolNotFoundError msg)" for msg
  proof -
    from miss[OF that] hit obtain names where
      r: "?r = Inl (ProtocolNotFoundError (not_found_message user_input names))" and
      sn: "suggestion_names ps ?sugg = Inr names" by blast
    from r that have msg: "msg = not_found_message user_input names" by simp
    note sn' = suggestion_names_Inr[OF sn]
    have len: "length names \<le> 3"
      using sn' length_get_close_matches[of n "map lower (map (\<lambda>p. get_str (name p)) ps)" 3 "2 / 5"]
      by linarith
    have each: "\<forall>s\<in>set names. \<exists>p\<in>set ps. name p = Some s \<and> 2 / 5 \<le> ratio (lower s) n"
    proof
      fix s assume "s \<in> set names"
      with sn' obtain p where p: "p \<in> set ps" "name p = Some s" "lower s \<in> set ?sugg" by blast
      from p(3) have "close_enough n (2 / 5) (lower s)" using get_close_matches_subset by blast
      then have "2 / 5 \<le> ratio (lower s) n" by (rule close_enough_ratio)
      with p show "\<exists>p\<in>set ps. name p = Some s \<and> 2 / 5 \<le> ratio (lower s) n" by blast
    qed
    have sub: "set ?sugg \<subseteq> name_key ` set ps"
    proof
      fix s assume "s \<in> set ?sugg"
      then have "s \<in> set (map lower (map (\<lambda>p. get_str (name p)) ps))"
        using get_close_matches_subset by blast
      then show "s \<in> name_key ` set ps" by (auto simp: name_key_def)
    qed
    have "map (\<lambda>s. ratio (lower s) n) names = map (\<lambda>s. ratio s n) (map lower names)"
      by (simp add: comp_def)
    also have "\<dots> = map (\<lambda>s. ratio s n) ?sugg"
      by (simp only: suggestion_names_lower[OF sn sub])
    finally have ord: "sorted (rev (map (\<lambda>s. ratio (lower s) n) names))"
      using get_close_matches_sorted[of n "map lower (map (\<lambda>p. get_str (name p)) ps)" 3 "2 / 5"]
      by simp
    have none: "names = []" if far: "\<forall>p\<in>set ps. ratio (name_key p) n < 2 / 5"
    proof -
      have "\<forall>x\<in>set (map lower (map (\<lambda>p. get_str (name p)) ps)). \<not> close_enough n (2 / 5) x"
      proof
        fix x assume "x \<in> set (map lower (map (\<lambda>p. get_str (name p)) ps))"
        then obtain p where "p \<in> set ps" "x = name_key p" by (auto simp: name_key_def)
        with far have "ratio x n < 2 / 5" by simp
        then show "\<not> close_enough n (2 / 5) x" using close_enough_ratio[of n "2 / 5" x] by auto
      qed
      then have "?sugg = []" by (simp only: get_close_matches_eq_Nil[of 3, simplified])
      with sn' show ?thesis by simp
    qed
    from msg len each ord none show ?thesis by blast
  qed
  from iff detail show ?thesis by blast
qed

text \<open>The theorem at the snapshot of one protocol, for an input that is close to its name
  but not close enough: no tier matches, and the error suggests \<^verbatim>\<open>Uniswap\<close>.\<close>

theorem not_found_iff_witness:
  "resolve_protocol insertion_rank uniswap_snapshot ''unixyz'' =
     Inl (ProtocolNotFoundError (not_found_message ''unixyz'' [''Uniswap''])) \<and>
   \<not> structural_match uniswap_snapshot ''unixyz'' \<and> \<not> fuzzy_accepts uniswap_snapshot ''unixyz''"
proof -
  have n: "''unixyz'' = lower (strip ''unixyz'')" by code_simp
  have r: "resolve_protocol insertion_rank uniswap_snapshot ''unixyz'' =
     Inl (ProtocolNotFoundError (not_found_message ''unixyz'' [''Uniswap'']))" by code_simp
  from not_found_iff[OF n, of insertion_rank uniswap_snapshot] r show ?thesis by blast
qed

text \<open>
  Claim C8 as stated measures the similarity of the suggested display names themselves. The
  code compares the lower-cased names: for the snapshot above and the input \<^verbatim>\<open>unixyz\<close> the
  error suggests \<^verbatim>\<open>Uniswap\<close>, whose ratio to the input is 4/13, below 0.4, in either order of
  the two strings; the ratio of \<^verbatim>\<open>uniswap\<close> is 6/13.
\<close>

theorem suggestion_similarity_counterexample:
  "resolve_protocol insertion_rank uniswap_snapshot ''unixyz'' =
     Inl (ProtocolNotFoundError (not_found_message ''unixyz'' [''Uniswap''])) \<and>
   ratio ''Uniswap'' ''unixyz'' < 2 / 5 \<and> ratio ''unixyz'' ''Uniswap'' < 2 / 5"
  by code_simp

subsection \<open>C9: the exact-name tier\<close>

text \<open>
  Claim C9, as it holds of the code. Let \<open>R\<close> be a protocol of the snapshot with name \<open>n\<close>, such
  that \<open>n\<close> has no leading or trailing whitespace. Let \<open>L\<close> be the last protocol in snapshot
  order whose lower-cased name is that of \<open>R\<close> (so \<open>L\<close> is \<open>R\<close> when no other protocol shares
  it), let no protocol other than \<open>L\<close> have lower-cased \<open>n\<close> as its lower-cased slug, and let
  \<open>L\<close> have a slug and a name. Then resolving \<open>n\<close> written in any letter case returns the
  non-parent result built from \<open>L\<close>: its slug, its name, its category and no children.
\<close>

theorem exact_name_resolves:
  assumes "R \<in> set protocols" and "name R = Some n"
    and "strip n = n"
    and "lower v = lower n"
    and "L = last (filter (\<lambda>p. name_key p = lower n) protocols)"
    and "\<forall>p\<in>set protocols. slug_key p = lower n \<longrightarrow> p = L"
    and "slug L = Some sL" and "name L = Some nL"
  shows "resolve_protocol h protocols v =
           Inr \<lparr>res_slug = sL, res_name = nL, is_parent = False, children = [],
                res_category = category L\<rparr> \<and>
         L \<in> set protocols \<and> name_key L = lower n"
proof -
  let ?f = "filter (\<lambda>p. name_key p = lower n) protocols"
  let ?g = "filter (\<lambda>p. slug_key p = lower n) protocols"
  have "lower (strip ([] @ v @ [])) = lower n"
    using assms(4,3) by (rule normalized_variant) simp_all
  then have norm: "lower (strip v) = lower n" by simp
  have "name_key R = lower n" using assms(2) by (simp add: name_key_def get_str_def)
  with assms(1) have ne: "?f \<noteq> []" by (auto simp: filter_empty_conv)
  then have in_f: "L \<in> set ?f" unfolding assms(5) by (rule last_in_set)
  have by_name: "map_of (name_map (build_indices protocols)) (lower n) = Some L"
    using ne by (simp add: name_map_build assms(5))
  have by_slug: "map_of (slug_map (build_indices protocols)) (lower n) = None \<or>
                 map_of (slug_map (build_indices protocols)) (lower n) = Some L"
  proof (cases "?g = []")
    case True
    then show ?thesis by (simp add: slug_map_build)
  next
    case False
    then have "last ?g \<in> set ?g" by (rule last_in_set)
    with assms(6) have "last ?g = L" by simp
    with False show ?thesis by (simp add: slug_map_build)
  qed
  have 1: "resolve_protocol h protocols v =
           Inr \<lparr>res_slug = sL, res_name = nL, is_parent = False, children = [],
                res_category = category L\<rparr>"
    using by_slug by_name norm
    by (auto simp: resolve_protocol_def record_result_def assms(7,8))
  from 1 in_f show ?thesis by simp
qed

text \<open>The theorem at a snapshot in which two protocols share the lower-cased name and the
  slug of the last of them is that lower-cased name.\<close>

theorem exact_name_resolves_witness:
  "resolve_protocol insertion_rank
     [\<lparr>slug = Some ''lido-old'', name = Some ''LIDO'', category = Some ''Staking'', parentProtocol = None\<rparr>,
      \<lparr>slug = Some ''lido'', name = Some ''Lido'', category = None, parentProtocol = None\<rparr>]
     ''liDO'' =
   Inr \<lparr>res_slug = ''lido'', res_name = ''Lido'', is_parent = False, children = [],
        res_category = None\<rparr>"
proof -
  let ?R = "\<lparr>slug = Some ''lido-old'', name = Some ''LIDO'', category = Some ''Staking'', parentProtocol = None\<rparr>"
  let ?L = "\<lparr>slug = Some ''lido'', name = Some ''Lido'', category = None, parentProtocol = None\<rparr>"
  have 1: "?R \<in> set [?R, ?L]" by simp
  have 2: "name ?R = Some ''LIDO''" by simp
  have 3: "strip ''LIDO'' = ''LIDO''" by code_simp
  have 4: "lower ''liDO'' = lower ''LIDO''" by code_simp
  have 5: "?L = last (filter (\<lambda>p. name_key p = lower ''LIDO'') [?R, ?L])" by code_simp
  have 6: "\<forall>p\<in>set [?R, ?L]. slug_key p = lower ''LIDO'' \<longrightarrow> p = ?L" by code_simp
  have 7: "slug ?L = Some ''lido''" by simp
  have 8: "name ?L = Some ''Lido''" by simp
  show ?thesis
    using exact_name_resolves[OF 1 2 3 4 5 6 7 8, of insertion_rank] by simp
qed

text \<open>
  Claim C9 as stated fails when the lower-cased name of \<open>R\<close> is the slug of another protocol,
  because the exact-slug tier runs first. In the snapshot below no other protocol shares the
  name \<^verbatim>\<open>"Aave"\<close> of the second protocol, and resolving \<^verbatim>\<open>"Aave"\<close> returns the first protocol,
  whose name is \<^verbatim>\<open>"Aave V3"\<close>.
\<close>

theorem exact_name_counterexample:
  "resolve_protocol insertion_rank
     [\<lparr>slug = Some ''aave'', name = Some ''Aave V3'', category = None, parentProtocol = None\<rparr>,
      \<lparr>slug = Some ''aave-classic'', name = Some ''Aave'', category = None, parentProtocol = None\<rparr>]
     ''Aave'' =
   Inr \<lparr>res_slug = ''aave'', res_name = ''Aave V3'', is_parent = False, children = [],
        res_category = None\<rparr>"
  by code_simp

subsection \<open>C10: an empty input\<close>

text \<open>
  Claim C10, as it holds of the code. Let every protocol of the snapshot have a slug and a
  name that are not empty, let no protocol have the empty parent slug (a \<^verbatim>\<open>parentProtocol\<close>
  that is exactly \<^verbatim>\<open>parent#\<close>), and let no protocol that belongs to a group have an empty
  base name. Then resolving an input that is empty or consists of whitespace raises
  \<^verbatim>\<open>ProtocolNotFoundError\<close> with the message for an empty list of suggestions.
\<close>

theorem blank_input_not_found:
  assumes "\<forall>p\<in>set ps. get_str (slug p) \<noteq> [] \<and> get_str (name p) \<noteq> []"
    and "[] \<notin> set (parent_keys ps)" and "[] \<notin> set (base_keys ps)"
    and "\<forall>c\<in>set user_input. isspace c"
  shows "resolve_protocol h ps user_input =
           Inl (ProtocolNotFoundError (not_found_message user_input []))"
proof -
  have "strip user_input = []" using assms(4) by (rule strip_all_space)
  then have n: "lower (strip user_input) = []" by (simp only: lower_Nil)
  have k1: "[] \<notin> set (map slug_key ps)"
  proof
    assume "[] \<in> set (map slug_key ps)"
    from in_set_mapD[OF this] obtain p where "p \<in> set ps" "slug_key p = []" by blast
    with assms(1) show False by (simp add: slug_key_def)
  qed
  have k2: "[] \<notin> set (map name_key ps)"
  proof
    assume "[] \<in> set (map name_key ps)"
    from in_set_mapD[OF this] obtain p where "p \<in> set ps" "name_key p = []" by blast
    with assms(1) show False by (simp add: name_key_def)
  qed
  have k3: "[] \<notin> set (map spaced (parent_keys ps))"
  proof
    assume "[] \<in> set (map spaced (parent_keys ps))"
    from in_set_mapD[OF this] obtain g where "g \<in> set (parent_keys ps)" "spaced g = []" by blast
    with assms(2) show False by simp
  qed
  have 1: "\<not> structural_match ps []"
    unfolding structural_match_def using k1 k2 k3 assms(2,3) by blast
  have k4: "[] \<notin> set (candidate_keys ps)"
    unfolding candidate_keys_def set_append using k1 k2 assms(2,3) by blast
  have 2: "\<not> fuzzy_accepts ps []"
  proof
    assume "fuzzy_accepts ps []"
    then obtain k where k: "k \<in> set (candidate_keys ps)" "close_enough [] (17 / 20) k"
      unfolding fuzzy_accepts_def by blast
    with k4 have "k \<noteq> []" by blast
    then have "\<not> close_enough [] (17 / 20) k" by (rule close_enough_empty_word) simp
    with k(2) show False by contradiction
  qed
  have "\<forall>x\<in>set (map lower (map (\<lambda>p. get_str (name p)) ps)). \<not> close_enough [] (2 / 5) x"
  proof
    fix x assume "x \<in> set (map lower (map (\<lambda>p. get_str (name p)) ps))"
    then have "x \<in> set (map name_key ps)" by (simp add: name_key_def comp_def)
    with k2 have "x \<noteq> []" by blast
    then show "\<not> close_enough [] (2 / 5) x" by (rule close_enough_empty_word) simp
  qed
  then have 3: "get_close_matches [] (map lower (map (\<lambda>p. get_str (name p)) ps)) 3 (2 / 5) = []"
    by (simp only: get_close_matches_eq_Nil[of 3, simplified])
  have "\<not> structural_match ps (lower (strip user_input))" unfolding n using 1 .
  then have "resolve_protocol h ps user_input =
          fuzzy_match h ps (build_indices ps)
             (build_parent_name_map (parent_children (build_indices ps))) user_input
             (lower (strip user_input))"
    by (rule resolve_protocol_fuzzy)
  also have "\<dots> = fuzzy_match h ps (build_indices ps)
             (build_parent_name_map (parent_children (build_indices ps))) user_input []"
    by (simp only: n)
  also have "\<dots> = not_found ps user_input []" using 2 by (rule fuzzy_match_Nil)
  also have "\<dots> = Inl (ProtocolNotFoundError (not_found_message user_input []))"
    unfolding not_found_def Let_def 3 by simp
  finally show ?thesis .
qed

text \<open>The theorem at the example snapshot, for the input of a space, a tab and a no-break
  space.\<close>

theorem blank_input_not_found_witness:
  "resolve_protocol insertion_rank example_snapshot [CHR '' '', CHR 0x09, CHR 0xA0] =
     Inl (ProtocolNotFoundError (not_found_message [CHR '' '', CHR 0x09, CHR 0xA0] []))"
proof -
  have 1: "\<forall>p\<in>set example_snapshot. get_str (slug p) \<noteq> [] \<and> get_str (name p) \<noteq> []"
    by code_simp
  have 2: "[] \<notin> set (parent_keys example_snapshot)" by code_simp
  have 3: "[] \<notin> set (base_keys example_snapshot)" by code_simp
  have 4: "\<forall>c\<in>set [CHR '' '', CHR 0x09, CHR 0xA0]. isspace c" by code_simp
  show ?thesis using blank_input_not_found[OF 1 2 3 4] .
qed

text \<open>
  Claim C10 as stated, for every snapshot whose slugs and names are not empty, fails when a
  protocol references the empty parent slug: the empty input is then an element of
  \<^verbatim>\<open>parent_slugs\<close> and the structural tier returns the group.
\<close>

theorem blank_input_counterexample:
  "resolve_protocol insertion_rank
     [\<lparr>slug = Some ''a'', name = Some ''A'', category = None,
       parentProtocol = Some ''parent#''\<rparr>] [] =
   Inr \<lparr>res_slug = [], res_name = [], is_parent = True, children = [(''A'', ''a'')],
        res_category = None\<rparr>"
  by code_simp

end
